theory Spec2Isabelle
  imports Complex_Main
begin

section \<open>Log-probabilities\<close>

text \<open>
  The decoder of \<^verbatim>\<open>ctc_beam_search.h\<close> computes with \<^verbatim>\<open>float\<close> log-probabilities.
  They are idealised here as the real numbers extended by the sentinel \<open>-\<infinity>\<close>
  (\<^verbatim>\<open>kLogZero\<close>): arithmetic is exact, and rounding, \<open>+\<infinity>\<close> and NaN are outside the model.
\<close>

datatype score = NegInf | Fin real

instantiation score :: linorder
begin

fun less_eq_score :: "score \<Rightarrow> score \<Rightarrow> bool" where
  "less_eq_score NegInf y = True"
| "less_eq_score (Fin a) NegInf = False"
| "less_eq_score (Fin a) (Fin b) = (a \<le> b)"

definition less_score :: "score \<Rightarrow> score \<Rightarrow> bool" where
  "less_score x y = (x \<le> y \<and> \<not> y \<le> x)"

instance
proof
  fix x y z :: score
  show "(x < y) = (x \<le> y \<and> \<not> y \<le> x)" by (simp add: less_score_def)
  show "x \<le> x" by (cases x) simp_all
  show "x \<le> y \<Longrightarrow> y \<le> z \<Longrightarrow> x \<le> z"
    by (cases x; cases y; cases z) simp_all
  show "x \<le> y \<Longrightarrow> y \<le> x \<Longrightarrow> x = y"
    by (cases x; cases y) simp_all
  show "x \<le> y \<or> y \<le> x"
    by (cases x; cases y) auto
qed

end

instantiation score :: "{zero, plus, minus}"
begin

definition zero_score :: score where
  "zero_score = Fin 0"

fun plus_score :: "score \<Rightarrow> score \<Rightarrow> score" where
  "plus_score (Fin a) (Fin b) = Fin (a + b)"
| "plus_score NegInf y = NegInf"
| "plus_score x NegInf = NegInf"

text \<open>Subtracting \<open>-\<infinity>\<close> leaves the model (IEEE gives NaN or \<open>+\<infinity>\<close>); the equation for
  this case is a convention.\<close>

fun minus_score :: "score \<Rightarrow> score \<Rightarrow> score" where
  "minus_score (Fin a) (Fin b) = Fin (a - b)"
| "minus_score NegInf (Fin b) = NegInf"
| "minus_score x NegInf = x"

instance ..

end

text \<open>The negation of a log-probability is a cost: a real number, or \<open>+\<infinity>\<close> for the negation
  of the sentinel, as the negation of a \<^verbatim>\<open>float\<close> gives.\<close>

datatype cost = Cost real | PosInf

fun negate :: "score \<Rightarrow> cost" where
  "negate (Fin a) = Cost (- a)"
| "negate NegInf = PosInf"

instantiation cost :: "{zero, linorder}"
begin

definition zero_cost :: cost where
  "zero_cost = Cost 0"

fun less_eq_cost :: "cost \<Rightarrow> cost \<Rightarrow> bool" where
  "less_eq_cost x PosInf = True"
| "less_eq_cost PosInf (Cost b) = False"
| "less_eq_cost (Cost a) (Cost b) = (a \<le> b)"

definition less_cost :: "cost \<Rightarrow> cost \<Rightarrow> bool" where
  "less_cost x y = (x \<le> y \<and> \<not> y \<le> x)"

instance
proof
  fix x y z :: cost
  show "(x < y) = (x \<le> y \<and> \<not> y \<le> x)" by (simp add: less_cost_def)
  show "x \<le> x" by (cases x) simp_all
  show "x \<le> y \<Longrightarrow> y \<le> z \<Longrightarrow> x \<le> z"
    by (cases x; cases y; cases z) simp_all
  show "x \<le> y \<Longrightarrow> y \<le> x \<Longrightarrow> x = y"
    by (cases x; cases y) simp_all
  show "x \<le> y \<or> y \<le> x"
    by (cases x; cases y) auto
qed

end

text \<open>Modelled from the spec: \<^verbatim>\<open>ctc_loss_util.h\<close> (\<^verbatim>\<open>kLogZero\<close>, \<^verbatim>\<open>LogSumExp\<close>) is not among
  the sources. The spec calls \<^verbatim>\<open>kLogZero\<close> the negative-infinity sentinel and
  \<^verbatim>\<open>LogSumExp\<close> the computation of \<open>log (exp a + exp b)\<close>, where combining with the
  sentinel leaves the other operand unchanged.\<close>

definition kLogZero :: score where
  "kLogZero = NegInf"

fun LogSumExp :: "score \<Rightarrow> score \<Rightarrow> score" where
  "LogSumExp (Fin a) (Fin b) = Fin (ln (exp a + exp b))"
| "LogSumExp (Fin a) NegInf = Fin a"
| "LogSumExp NegInf y = y"

section \<open>Beam entries\<close>

text \<open>Modelled from the spec: \<^verbatim>\<open>ctc_beam_entry.h\<close> (\<^verbatim>\<open>BeamProbability\<close>, \<^verbatim>\<open>BeamEntry\<close>,
  \<^verbatim>\<open>BeamComparer\<close>) is not among the sources. A probability pair holds \<open>total\<close>, \<open>blank\<close>
  and \<open>label\<close>; \<^verbatim>\<open>Reset\<close> sets all three to the sentinel.\<close>

record BeamProbability =
  total :: score
  blank :: score
  label :: score

definition BeamProbability_Reset :: BeamProbability where
  "BeamProbability_Reset = \<lparr>total = kLogZero, blank = kLogZero, label = kLogZero\<rparr>"

text \<open>
  The prefix tree is a strict tree with one child slot per label, so a \<^verbatim>\<open>BeamEntry*\<close> is
  modelled by the path of labels from the node up to the root: the root is \<open>[]\<close>, the
  child with label \<open>k\<close> of node \<open>b\<close> is \<open>k # b\<close>. The fields \<^verbatim>\<open>parent\<close> and \<^verbatim>\<open>label\<close> of
  an entry are read off its address; the root carries the label \<open>-1\<close> that \<^verbatim>\<open>Reset\<close>
  passes to the constructor.
\<close>

type_synonym ptr = "int list"

definition parent :: "ptr \<Rightarrow> ptr option" where
  "parent b = (case b of [] \<Rightarrow> None | k # p \<Rightarrow> Some p)"

definition label_of :: "ptr \<Rightarrow> int" where
  "label_of b = (case b of [] \<Rightarrow> - 1 | k # p \<Rightarrow> k)"

record 's BeamEntry =
  children :: "ptr list"
  state :: 's
  oldp :: BeamProbability
  newp :: BeamProbability

type_synonym 's heap = "ptr \<Rightarrow> 's BeamEntry"

text \<open>A freshly constructed entry: no children, both probability pairs reset. (Whether
  the constructor that \<^verbatim>\<open>Reset\<close> calls with the number of children already populates
  them is not visible in the sources; \<^verbatim>\<open>Step\<close> populates the children of a node without
  children before it expands it, with the same result.)\<close>

definition BeamEntry_new :: "'s \<Rightarrow> 's BeamEntry" where
  "BeamEntry_new s = \<lparr>children = [], state = s,
     oldp = BeamProbability_Reset, newp = BeamProbability_Reset\<rparr>"

definition Active :: "'s BeamEntry \<Rightarrow> bool" where
  "Active e = (total (newp e) > kLogZero)"

definition HasChildren :: "'s BeamEntry \<Rightarrow> bool" where
  "HasChildren e = (children e \<noteq> [])"

text \<open>\<^verbatim>\<open>PopulateChildren(L)\<close>: one child per label \<open>0 .. L-1\<close>, each freshly constructed.\<close>

definition child_ptrs :: "int \<Rightarrow> ptr \<Rightarrow> ptr list" where
  "child_ptrs L b = map (\<lambda>k. int k # b) [0 ..< nat L]"

definition PopulateChildren :: "'s \<Rightarrow> int \<Rightarrow> ptr \<Rightarrow> 's heap \<Rightarrow> 's heap" where
  "PopulateChildren s L b h =
     (let cs = child_ptrs L b;
          h1 = fold (\<lambda>c g. g(c := BeamEntry_new s)) cs h
      in h1(b := (h1 b)\<lparr>children := cs\<rparr>))"

text \<open>\<^verbatim>\<open>LabelSeq\<close>: walk from the node to the root, skipping a label equal to the
  label of the node visited just before when \<open>merge_repeated\<close> is set, then reverse.\<close>

fun LabelSeq_walk :: "bool \<Rightarrow> int \<Rightarrow> ptr \<Rightarrow> int list" where
  "LabelSeq_walk merge prev_label [] = []"
| "LabelSeq_walk merge prev_label (k # p) =
     (if \<not> merge \<or> k \<noteq> prev_label then [k] else []) @ LabelSeq_walk merge k p"

definition LabelSeq :: "bool \<Rightarrow> ptr \<Rightarrow> int list" where
  "LabelSeq merge_repeated b = rev (LabelSeq_walk merge_repeated (- 1) b)"

section \<open>The scorer\<close>

text \<open>The template parameter \<^verbatim>\<open>CTCBeamScorer\<close> (\<^verbatim>\<open>ctc_beam_scorer.h\<close> is not among the
  sources) is a parameter of the model: a record of the five methods the decoder calls.
  Methods that write through a state pointer return the new state. \<open>fresh_state\<close> is the
  value of a default-constructed \<^verbatim>\<open>CTCBeamState\<close>.\<close>

record 's scorer =
  fresh_state :: 's
  InitializeState :: "'s \<Rightarrow> 's"
  ExpandState :: "'s \<Rightarrow> int \<Rightarrow> 's \<Rightarrow> int \<Rightarrow> 's"
  ExpandStateEnd :: "'s \<Rightarrow> 's"
  GetStateExpansionScore :: "'s \<Rightarrow> score \<Rightarrow> score"
  GetStateEndExpansionScore :: "'s \<Rightarrow> score"

text \<open>Modelled from the spec: the no-op scorer \<^verbatim>\<open>BaseBeamScorer\<close> adds zero everywhere:
  the expansion score is the previous score and the end-of-sequence score is \<open>0\<close>.\<close>

definition BaseBeamScorer :: "unit scorer" where
  "BaseBeamScorer = \<lparr>fresh_state = (),
     InitializeState = (\<lambda>s. s),
     ExpandState = (\<lambda>from_state from_label to_state to_label. to_state),
     ExpandStateEnd = (\<lambda>s. s),
     GetStateExpansionScore = (\<lambda>s previous_score. previous_score),
     GetStateEndExpansionScore = (\<lambda>s. 0)\<rparr>"

section \<open>The bounded best-N structure\<close>

text \<open>Modelled from the spec: \<^verbatim>\<open>gtl::TopN\<close> (\<^verbatim>\<open>top_n.h\<close>) is not among the sources. The
  members are kept as a list of pointers; the comparer reads \<open>newp.total\<close> of the entries
  in the heap at the time of the call. \<open>push\<close> inserts and evicts the minimum when the size
  exceeds the limit, \<open>peek_bottom\<close> returns the minimum and fails on an empty structure,
  \<open>Extract\<close> returns the members in descending order (here: a stable sort, reversed).
  Limits and sizes are compared as integers; the widths and counts the decoder is used
  with are not negative.\<close>

definition rank :: "'s heap \<Rightarrow> ptr \<Rightarrow> score" where
  "rank h p = total (newp (h p))"

text \<open>The minimum of a non-empty member list: the first member of least rank.\<close>

definition TopN_bottom :: "'s heap \<Rightarrow> ptr list \<Rightarrow> ptr" where
  "TopN_bottom h xs = fold (\<lambda>y m. if rank h y < rank h m then y else m) (tl xs) (hd xs)"

definition peek_bottom :: "'s heap \<Rightarrow> ptr list \<Rightarrow> ptr option" where
  "peek_bottom h xs = (if xs = [] then None else Some (TopN_bottom h xs))"

definition TopN_push :: "int \<Rightarrow> 's heap \<Rightarrow> ptr \<Rightarrow> ptr list \<Rightarrow> ptr list" where
  "TopN_push limit h x xs =
     (let ys = xs @ [x]
      in if limit < int (length ys) then remove1 (TopN_bottom h ys) ys else ys)"

definition TopN_Extract :: "'s heap \<Rightarrow> ptr list \<Rightarrow> ptr list" where
  "TopN_Extract h xs = rev (sort_key (rank h) xs)"

section \<open>The decoder\<close>

datatype error = CheckFailed

text \<open>A call either completes with the new state, or a \<^verbatim>\<open>CHECK\<close> aborts it; the
  state reached at the abort is kept, so that what was mutated before it can be stated.\<close>

datatype 'a result = Ok 'a | Failed error 'a

fun for_each :: "('x \<Rightarrow> 'a \<Rightarrow> 'a result) \<Rightarrow> 'x list \<Rightarrow> 'a \<Rightarrow> 'a result" where
  "for_each f [] s = Ok s"
| "for_each f (x # xs) s =
     (case f x s of Ok s' \<Rightarrow> for_each f xs s' | Failed e s' \<Rightarrow> Failed e s')"

text \<open>The members of \<^verbatim>\<open>CTCDecoder\<close> (\<^verbatim>\<open>ctc_decoder.h\<close> is not among the sources: the blank
  is the last index) and of \<^verbatim>\<open>CTCBeamSearchDecoder\<close>. \<^verbatim>\<open>beam_root_\<close> is the pointer \<open>[]\<close>.\<close>

record 's decoder =
  num_classes :: int
  blank_index :: int
  batch_size :: int
  merge_repeated :: bool
  beam_width :: int
  leaves :: "ptr list"
  heap :: "'s heap"

definition beam_root :: ptr where
  "beam_root = []"

definition push_leaf :: "ptr \<Rightarrow> 's decoder \<Rightarrow> 's decoder" where
  "push_leaf b d = d\<lparr>leaves := TopN_push (beam_width d) (heap d) b (leaves d)\<rparr>"

text \<open>\<^verbatim>\<open>Reset\<close>: the old tree is dropped, a new root is constructed with \<open>newp.total\<close> and
  \<open>newp.blank\<close> set to \<open>0\<close>, pushed as the initial leaf, and its state initialised.\<close>

definition Reset :: "'s scorer \<Rightarrow> 's decoder \<Rightarrow> 's decoder" where
  "Reset sc d =
     (let d1 = d\<lparr>leaves := []\<rparr>;
          root = BeamEntry_new (fresh_state sc);
          root1 = root\<lparr>newp := (newp root)\<lparr>total := 0, blank := 0\<rparr>\<rparr>;
          d2 = d1\<lparr>heap := (\<lambda>p. BeamEntry_new (fresh_state sc))(beam_root := root1)\<rparr>;
          d3 = push_leaf beam_root d2
      in d3\<lparr>heap := (heap d3)(beam_root :=
            (heap d3 beam_root)\<lparr>state := InitializeState sc (state (heap d3 beam_root))\<rparr>)\<rparr>)"

subsection \<open>Step\<close>

text \<open>\<^verbatim>\<open>input(k)\<close>: a coefficient of the timestep's vector; an index out of range has no
  value (the model aborts the call there).\<close>

definition coeff :: "score list \<Rightarrow> int \<Rightarrow> score option" where
  "coeff v k = (if 0 \<le> k \<and> k < int (length v) then Some (v ! nat k) else None)"

text \<open>\<^verbatim>\<open>maxCoeff\<close>; the value on the empty vector is a convention (nothing is
  subtracted from an empty vector).\<close>

definition maxCoeff :: "score list \<Rightarrow> score" where
  "maxCoeff v = (case v of [] \<Rightarrow> kLogZero | x # xs \<Rightarrow> fold max xs x)"

definition update_newp ::
  "ptr \<Rightarrow> (BeamProbability \<Rightarrow> BeamProbability) \<Rightarrow> 's decoder \<Rightarrow> 's decoder" where
  "update_newp b f d = d\<lparr>heap := (heap d)(b := (heap d b)\<lparr>newp := f (newp (heap d b))\<rparr>)\<rparr>"

definition update_oldp ::
  "ptr \<Rightarrow> (BeamProbability \<Rightarrow> BeamProbability) \<Rightarrow> 's decoder \<Rightarrow> 's decoder" where
  "update_oldp b f d = d\<lparr>heap := (heap d)(b := (heap d b)\<lparr>oldp := f (oldp (heap d b))\<rparr>)\<rparr>"

text \<open>First loop of \<^verbatim>\<open>Step\<close>: \<^verbatim>\<open>b->oldp = b->newp\<close>.\<close>

definition shift_probs :: "ptr \<Rightarrow> 's decoder \<Rightarrow> 's decoder" where
  "shift_probs b d = update_oldp b (\<lambda>q. newp (heap d b)) d"

text \<open>The expansion's \<open>previous\<close> probability of node \<open>c\<close> under parent \<open>p\<close>.\<close>

definition previous_of :: "'s decoder \<Rightarrow> ptr \<Rightarrow> ptr \<Rightarrow> score" where
  "previous_of d c p =
     (if label_of c = label_of p then blank (oldp (heap d p)) else total (oldp (heap d p)))"

text \<open>Second loop of \<^verbatim>\<open>Step\<close> (lines 184 to 210): the recurrence for an entry of the
  prior beam, and the push back into the beam.\<close>

definition update_label :: "'s scorer \<Rightarrow> score list \<Rightarrow> ptr \<Rightarrow> 's decoder \<Rightarrow> 's decoder result" where
  "update_label sc input b d =
     (case parent b of
        None \<Rightarrow> Ok d
      | Some p \<Rightarrow>
          let d0 = (if Active (heap d p)
                    then update_newp b (\<lambda>q. q\<lparr>label := LogSumExp (label q)
                           (GetStateExpansionScore sc (state (heap d b)) (previous_of d b p))\<rparr>) d
                    else d)
          in (case coeff input (label_of b) of
                None \<Rightarrow> Failed CheckFailed d0
              | Some x \<Rightarrow> Ok (update_newp b (\<lambda>q. q\<lparr>label := label q + x\<rparr>) d0)))"

definition update_branch :: "'s scorer \<Rightarrow> score list \<Rightarrow> ptr \<Rightarrow> 's decoder \<Rightarrow> 's decoder result" where
  "update_branch sc input b d =
     (case update_label sc input b d of
        Failed e d1 \<Rightarrow> Failed e d1
      | Ok d1 \<Rightarrow>
          (case coeff input (blank_index d1) of
             None \<Rightarrow> Failed CheckFailed d1
           | Some x \<Rightarrow>
               let d2 = update_newp b (\<lambda>q. q\<lparr>blank := total (oldp (heap d1 b)) + x\<rparr>) d1;
                   d3 = update_newp b (\<lambda>q. q\<lparr>total := LogSumExp (blank q) (label q)\<rparr>) d2
               in Ok (push_leaf b d3)))"

text \<open>The admission test \<^verbatim>\<open>is_candidate\<close>; \<open>None\<close> when \<^verbatim>\<open>peek_bottom\<close> fails.\<close>

definition is_candidate :: "'s decoder \<Rightarrow> BeamProbability \<Rightarrow> bool option" where
  "is_candidate d prob =
     (if total prob > kLogZero then
        (if int (length (leaves d)) < beam_width d then Some True
         else (case peek_bottom (heap d) (leaves d) of
                 None \<Rightarrow> None
               | Some m \<Rightarrow> Some (total prob > total (newp (heap d m)))))
      else Some False)"

text \<open>Body of the loop over the children of \<open>b\<close> (lines 237 to 266).\<close>

definition child_expand :: "'s scorer \<Rightarrow> ptr \<Rightarrow> ptr \<Rightarrow> 's decoder \<Rightarrow> 's decoder" where
  "child_expand sc b c d =
     (let d1 = update_newp c (\<lambda>q. q\<lparr>blank := kLogZero\<rparr>) d;
          st = ExpandState sc (state (heap d1 b)) (label_of b) (state (heap d1 c)) (label_of c)
      in d1\<lparr>heap := (heap d1)(c := (heap d1 c)\<lparr>state := st\<rparr>)\<rparr>)"

definition child_probs :: "'s scorer \<Rightarrow> score \<Rightarrow> ptr \<Rightarrow> ptr \<Rightarrow> 's decoder \<Rightarrow> 's decoder" where
  "child_probs sc x b c d =
     (let d2 = child_expand sc b c d;
          previous = previous_of d2 c b;
          d3 = update_newp c (\<lambda>q. q\<lparr>label := x + GetStateExpansionScore sc (state (heap d2 c)) previous\<rparr>) d2
      in update_newp c (\<lambda>q. q\<lparr>total := label q\<rparr>) d3)"

definition grow_child :: "'s scorer \<Rightarrow> score list \<Rightarrow> ptr \<Rightarrow> ptr \<Rightarrow> 's decoder \<Rightarrow> 's decoder result" where
  "grow_child sc input b c d =
     (if Active (heap d c) then Ok d
      else
        (case coeff input (label_of c) of
           None \<Rightarrow> Failed CheckFailed (child_expand sc b c d)
         | Some x \<Rightarrow>
             let d1 = child_probs sc x b c d
             in (case is_candidate d1 (newp (heap d1 c)) of
                   None \<Rightarrow> Failed CheckFailed d1
                 | Some True \<Rightarrow>
                     (case peek_bottom (heap d1) (leaves d1) of
                        None \<Rightarrow> Failed CheckFailed d1
                      | Some bottom \<Rightarrow>
                          let d2 = push_leaf c d1
                          in if int (length (leaves d2)) = beam_width d2
                             then Ok (update_newp bottom (\<lambda>q. BeamProbability_Reset) d2)
                             else Ok d2)
                 | Some False \<Rightarrow>
                     Ok (update_newp c (\<lambda>q. BeamProbability_Reset)
                          (update_oldp c (\<lambda>q. BeamProbability_Reset) d1)))))"

text \<open>Body of the loop that grows new leaves (lines 218 to 267).\<close>

definition grow_leaf :: "'s scorer \<Rightarrow> score list \<Rightarrow> ptr \<Rightarrow> 's decoder \<Rightarrow> 's decoder result" where
  "grow_leaf sc input b d =
     (case is_candidate d (oldp (heap d b)) of
        None \<Rightarrow> Failed CheckFailed d
      | Some False \<Rightarrow> Ok d
      | Some True \<Rightarrow>
          let d1 = (if \<not> HasChildren (heap d b)
                    then d\<lparr>heap := PopulateChildren (fresh_state sc) (num_classes d - 1) b (heap d)\<rparr>
                    else d)
          in for_each (grow_child sc input b) (children (heap d1 b)) d1)"

definition Step :: "'s scorer \<Rightarrow> score list \<Rightarrow> 's decoder \<Rightarrow> 's decoder result" where
  "Step sc raw_input d =
     (let input = map (\<lambda>x. x - maxCoeff raw_input) raw_input
      in if num_classes d \<noteq> int (length input) then Failed CheckFailed d
         else
           let branches = TopN_Extract (heap d) (leaves d);
               d1 = d\<lparr>leaves := []\<rparr>;
               d2 = fold shift_probs branches d1
           in (case for_each (update_branch sc input) branches d2 of
                 Failed e d3 \<Rightarrow> Failed e d3
               | Ok d3 \<Rightarrow> for_each (grow_leaf sc input) branches d3))"

subsection \<open>TopPaths and Decode\<close>

text \<open>\<^verbatim>\<open>TopPaths\<close> is a \<^verbatim>\<open>const\<close> method: it reads the decoder and returns what it writes
  to \<open>paths\<close> and \<open>log_probs\<close>, or fails a \<^verbatim>\<open>CHECK\<close>.\<close>

definition TopPaths :: "int \<Rightarrow> bool \<Rightarrow> 's decoder \<Rightarrow> error + (int list list \<times> score list)" where
  "TopPaths n merge d =
     (if \<not> n \<le> beam_width d then Inl CheckFailed
      else if \<not> n \<le> int (length (leaves d)) then Inl CheckFailed
      else
        let top_branches = fold (TopN_push n (heap d)) (leaves d) [];
            branches = TopN_Extract (heap d) top_branches;
            es = map (\<lambda>i. branches ! i) [0 ..< nat n]
        in Inr (map (LabelSeq merge) es, map (\<lambda>e. total (newp (heap d e))) es))"

text \<open>The end-of-sequence loop of \<^verbatim>\<open>Decode\<close> (lines 144 to 150).\<close>

definition finalize_entry :: "'s scorer \<Rightarrow> ptr \<Rightarrow> 's decoder \<Rightarrow> 's decoder" where
  "finalize_entry sc entry d =
     (let d1 = d\<lparr>heap := (heap d)(entry := (heap d entry)\<lparr>state := ExpandStateEnd sc (state (heap d entry))\<rparr>)\<rparr>;
          d2 = update_newp entry
                 (\<lambda>q. q\<lparr>total := total q + GetStateEndExpansionScore sc (state (heap d1 entry))\<rparr>) d1
      in push_leaf entry d2)"

definition nth_opt :: "'a list \<Rightarrow> nat \<Rightarrow> 'a option" where
  "nth_opt xs i = (if i < length xs then Some (xs ! i) else None)"

text \<open>One iteration of the loop over the timesteps: \<^verbatim>\<open>Step(input[t].row(b))\<close>; an index
  out of range aborts the call.\<close>

definition Decode_step ::
  "'s scorer \<Rightarrow> score list list list \<Rightarrow> nat \<Rightarrow> nat \<Rightarrow> 's decoder \<Rightarrow> 's decoder result" where
  "Decode_step sc input b t d =
     (case nth_opt input t of
        None \<Rightarrow> Failed CheckFailed d
      | Some m \<Rightarrow>
          (case nth_opt m b of
             None \<Rightarrow> Failed CheckFailed d
           | Some row \<Rightarrow> Step sc row d))"

text \<open>What \<^verbatim>\<open>Decode\<close> has written for one batch element \<open>b\<close>: the label sequences
  \<^verbatim>\<open>(*output)[i][b]\<close> and the scores \<^verbatim>\<open>(*scores)(b, i)\<close>, for \<open>i < top_n\<close>.\<close>

type_synonym decoded = "int list list \<times> cost list"

definition Decode_batch ::
  "'s scorer \<Rightarrow> int list \<Rightarrow> score list list list \<Rightarrow> int \<Rightarrow> nat \<Rightarrow>
   's decoder \<times> decoded list \<Rightarrow> ('s decoder \<times> decoded list) result" where
  "Decode_batch sc seq_len input top_n b s =
     (case s of (d, outs) \<Rightarrow>
       (case nth_opt seq_len b of
          None \<Rightarrow> Failed CheckFailed (d, outs)
        | Some seq_len_b \<Rightarrow>
           (case for_each (Decode_step sc input b) [0 ..< nat seq_len_b] (Reset sc d) of
              Failed e d1 \<Rightarrow> Failed e (d1, outs)
            | Ok d1 \<Rightarrow>
                let branches = TopN_Extract (heap d1) (leaves d1);
                    d2 = fold (finalize_entry sc) branches (d1\<lparr>leaves := []\<rparr>)
                in (case TopPaths top_n (merge_repeated d2) d2 of
                      Inl e \<Rightarrow> Failed e (d2, outs)
                    | Inr (beams, beam_log_probabilities) \<Rightarrow>
                        if top_n \<noteq> int (length beam_log_probabilities)
                           \<or> length beams \<noteq> length beam_log_probabilities
                        then Failed CheckFailed (d2, outs)
                        else Ok (d2, outs @ [(beams, map negate beam_log_probabilities)])))))"

definition Decode ::
  "'s scorer \<Rightarrow> int list \<Rightarrow> score list list list \<Rightarrow> int \<Rightarrow> 's decoder \<Rightarrow>
   ('s decoder \<times> decoded list) result" where
  "Decode sc seq_len input top_n d =
     for_each (Decode_batch sc seq_len input top_n) [0 ..< nat (batch_size d)] (d, [])"

text \<open>The two constructors: the first resets the decoder, the second does not.\<close>

definition CTCBeamSearchDecoder_raw :: "int \<Rightarrow> int \<Rightarrow> int \<Rightarrow> bool \<Rightarrow> 's scorer \<Rightarrow> 's decoder" where
  "CTCBeamSearchDecoder_raw nc bw bs mr sc =
     \<lparr>num_classes = nc, blank_index = nc - 1, batch_size = bs, merge_repeated = mr,
      beam_width = bw, leaves = [], heap = (\<lambda>p. BeamEntry_new (fresh_state sc))\<rparr>"

definition CTCBeamSearchDecoder :: "int \<Rightarrow> int \<Rightarrow> 's scorer \<Rightarrow> 's decoder" where
  "CTCBeamSearchDecoder nc bw sc = Reset sc (CTCBeamSearchDecoder_raw nc bw 1 False sc)"

section \<open>Notions used in the properties\<close>

text \<open>A row is an additive shift of another: the same finite constant is added to every
  coefficient.\<close>

definition shifted :: "score list \<Rightarrow> score list \<Rightarrow> bool" where
  "shifted r' r = (\<exists>c. r' = map (\<lambda>x. x + Fin c) r)"

text \<open>The admission test in words: the total is strictly above the sentinel, and either
  the beam holds fewer than \<open>beam_width\<close> entries or the total strictly exceeds
  \<open>newp.total\<close> of the current beam minimum.\<close>

definition admitted :: "'s decoder \<Rightarrow> BeamProbability \<Rightarrow> bool" where
  "admitted d prob =
     (total prob > kLogZero \<and>
      (int (length (leaves d)) < beam_width d \<or>
       total prob > total (newp (heap d (TopN_bottom (heap d) (leaves d))))))"

text \<open>A decoder over the label space \<open>{a, blank}\<close> with beam width 3 and the no-op scorer.\<close>

definition example_decoder :: "unit decoder" where
  "example_decoder = CTCBeamSearchDecoder 2 3 BaseBeamScorer"

text \<open>Decoders as the constructors and \<open>Step\<close> produce them: a positive beam width, at
  least the blank class, the blank as last index, every beam member other than the root
  labelled with a class, and every node's children either absent or the ones
  \<^verbatim>\<open>PopulateChildren\<close> creates.\<close>

definition well_formed :: "'s decoder \<Rightarrow> bool" where
  "well_formed d =
     (0 < beam_width d \<and> 0 < num_classes d \<and> blank_index d = num_classes d - 1
      \<and> (\<forall>b \<in> set (leaves d). b \<noteq> [] \<longrightarrow> 0 \<le> hd b \<and> hd b < num_classes d)
      \<and> (\<forall>b. set (children (heap d b)) \<subseteq> set (child_ptrs (num_classes d - 1) b)))"

text \<open>The log-probability of a probability \<open>p\<close> (the sentinel for \<open>p = 0\<close>); the concrete
  inputs below are written with it.\<close>

definition lg :: "real \<Rightarrow> score" where
  "lg p = (if 0 < p then Fin (ln p) else NegInf)"

text \<open>The state a result carries, and what \<open>Decode\<close> has written.\<close>

definition state_of :: "'a result \<Rightarrow> 'a" where
  "state_of r = (case r of Ok s \<Rightarrow> s | Failed e s \<Rightarrow> s)"

definition outputs_of :: "('s decoder \<times> decoded list) result \<Rightarrow> decoded list" where
  "outputs_of r = snd (state_of r)"

text \<open>Every active node's \<open>newp.total\<close> is the log-sum of its \<open>newp.blank\<close> and \<open>newp.label\<close>.\<close>

definition total_consistent :: "'s decoder \<Rightarrow> bool" where
  "total_consistent d =
     (\<forall>x. Active (heap d x) \<longrightarrow>
        total (newp (heap d x)) = LogSumExp (blank (newp (heap d x))) (label (newp (heap d x))))"

text \<open>Concrete runs with the no-op scorer. Vectors list the classes in order, the blank
  last.\<close>

text \<open>One timestep, \<open>P(a) = 0.3\<close>, \<open>P(blank) = 0.7\<close>, beam width 2.\<close>

definition single_step_run :: "unit decoder result" where
  "single_step_run = Step BaseBeamScorer [lg 0.3, lg 0.7] (CTCBeamSearchDecoder 2 2 BaseBeamScorer)"

text \<open>The example of the header comment: two timesteps over \<open>{a, blank}\<close>, one batch element,
  the two best paths requested.\<close>

definition graves_input :: "score list list list" where
  "graves_input = [[[lg 0.3, lg 0.7]], [[lg 0.4, lg 0.6]]]"

definition graves_run :: "int \<Rightarrow> (unit decoder \<times> decoded list) result" where
  "graves_run bw =
     Decode BaseBeamScorer [2] graves_input 2 (CTCBeamSearchDecoder_raw 2 bw 1 False BaseBeamScorer)"

text \<open>Two timesteps with \<open>P(a) = 0.6\<close>, \<open>P(blank) = 0.4\<close>, beam width 3, the best path
  requested.\<close>

definition repeat_input :: "score list list list" where
  "repeat_input = [[[lg 0.6, lg 0.4]], [[lg 0.6, lg 0.4]]]"

definition repeat_run :: "(unit decoder \<times> decoded list) result" where
  "repeat_run =
     Decode BaseBeamScorer [2] repeat_input 1 (CTCBeamSearchDecoder_raw 2 3 1 False BaseBeamScorer)"



text \<open>The phases of \<open>Step\<close>: the vector it works with (the maximum coefficient
  subtracted), the entries extracted from the prior beam, and the decoder after the beam
  is emptied and \<open>oldp\<close> of the extracted entries is set.\<close>

definition Step_input :: "score list \<Rightarrow> score list" where
  "Step_input v = map (\<lambda>x. x - maxCoeff v) v"

definition Step_branches :: "'s decoder \<Rightarrow> ptr list" where
  "Step_branches d = TopN_Extract (heap d) (leaves d)"

definition Step_shifted :: "'s decoder \<Rightarrow> 's decoder" where
  "Step_shifted d = fold shift_probs (Step_branches d) (d\<lparr>leaves := []\<rparr>)"

text \<open>What the growth loop can do to the probabilities of a node: leave both pairs as
  they are, reset \<open>newp\<close>, or give it the probabilities of a newly activated child.\<close>

definition kept_or_renewed :: "'s decoder \<Rightarrow> 's decoder \<Rightarrow> ptr \<Rightarrow> bool" where
  "kept_or_renewed d d' x =
     ((newp (heap d' x) = newp (heap d x) \<and> oldp (heap d' x) = oldp (heap d x))
      \<or> newp (heap d' x) = BeamProbability_Reset
      \<or> (blank (newp (heap d' x)) = kLogZero
          \<and> total (newp (heap d' x)) = label (newp (heap d' x))))"

text \<open>The first \<open>n\<close> timesteps of the example of the header comment, beam width 3.\<close>

definition graves_steps :: "nat \<Rightarrow> unit decoder result" where
  "graves_steps n =
     for_each (Step BaseBeamScorer) (take n [[lg 0.3, lg 0.7], [lg 0.4, lg 0.6]])
       (CTCBeamSearchDecoder 2 3 BaseBeamScorer)"

section \<open>Properties\<close>

subsection \<open>Reset\<close>

lemma TopN_push_single: "0 < limit \<Longrightarrow> TopN_push limit h x [] = [x]"
  by (simp add: TopN_push_def)

text \<open>
  C9. After \<open>Reset\<close>, for a decoder of positive beam width, the decoder holds a fresh root:
  its label is the sentinel \<open>-1\<close>, \<open>newp.total\<close> and \<open>newp.blank\<close> are \<open>0\<close> (log 1), every other
  probability is the sentinel, its scorer state is the scorer's initialisation of a fresh
  state, the rest of the tree is gone, and the beam holds exactly the root.
\<close>

theorem Reset_root:
  assumes "0 < beam_width d"
  shows "leaves (Reset sc d) = [beam_root]
       \<and> label_of beam_root = - 1
       \<and> newp (heap (Reset sc d) beam_root) = \<lparr>total = 0, blank = 0, label = kLogZero\<rparr>
       \<and> oldp (heap (Reset sc d) beam_root) = BeamProbability_Reset
       \<and> state (heap (Reset sc d) beam_root) = InitializeState sc (fresh_state sc)
       \<and> (\<forall>p. p \<noteq> beam_root \<longrightarrow> heap (Reset sc d) p = BeamEntry_new (fresh_state sc))"
  using assms
  by (simp add: Reset_def push_leaf_def TopN_push_single Let_def BeamEntry_new_def
      BeamProbability_Reset_def label_of_def beam_root_def)

theorem Reset_root_witness:
  "0 < beam_width (CTCBeamSearchDecoder_raw 2 3 1 False BaseBeamScorer)
   \<and> leaves (Reset BaseBeamScorer (CTCBeamSearchDecoder_raw 2 3 1 False BaseBeamScorer)) = [beam_root]
   \<and> total (newp (heap (Reset BaseBeamScorer (CTCBeamSearchDecoder_raw 2 3 1 False BaseBeamScorer)) beam_root)) = 0
   \<and> [0] \<noteq> beam_root
   \<and> heap (Reset BaseBeamScorer (CTCBeamSearchDecoder_raw 2 3 1 False BaseBeamScorer)) [0]
       = BeamEntry_new ()"
  using Reset_root [of "CTCBeamSearchDecoder_raw 2 3 1 False BaseBeamScorer" BaseBeamScorer]
  by (simp add: CTCBeamSearchDecoder_raw_def beam_root_def BaseBeamScorer_def)

subsection \<open>Additive shifts of the input\<close>

lemma max_plus_Fin: "max a b + Fin c = max (a + Fin c) (b + Fin c)" for a b :: score
  by (cases a; cases b) (auto simp: max_def)

lemma fold_max_plus_Fin:
  "fold max (map (\<lambda>x. x + Fin c) xs) (a + Fin c) = fold max xs a + Fin c"
  by (induction xs arbitrary: a) (simp_all add: max_plus_Fin [symmetric])

lemma maxCoeff_shift: "v \<noteq> [] \<Longrightarrow> maxCoeff (map (\<lambda>x. x + Fin c) v) = maxCoeff v + Fin c"
  by (cases v) (simp_all add: maxCoeff_def fold_max_plus_Fin)

lemma fold_max_ge_init: "a \<le> fold max xs a" for a :: score
  by (induction xs arbitrary: a) (auto intro: order_trans [OF max.cobounded2])

lemma fold_max_ge_elem: "x \<in> set xs \<Longrightarrow> x \<le> fold max xs a" for a :: score
proof (induction xs arbitrary: a)
  case Nil
  then show ?case by simp
next
  case (Cons y ys)
  show ?case
  proof (cases "x = y")
    case True
    have "y \<le> max y a" by simp
    also have "\<dots> \<le> fold max ys (max y a)" by (rule fold_max_ge_init)
    finally show ?thesis using True by simp
  next
    case False
    with Cons show ?thesis by simp
  qed
qed

lemma maxCoeff_ge: "x \<in> set v \<Longrightarrow> x \<le> maxCoeff v"
  by (cases v) (auto simp: maxCoeff_def fold_max_ge_init fold_max_ge_elem)

lemma shift_cancel: "x \<le> m \<Longrightarrow> (x + Fin c) - (m + Fin c) = x - m" for x m :: score
  by (cases x; cases m) simp_all

lemma normalise_shift:
  "map (\<lambda>x. x - maxCoeff (map (\<lambda>x. x + Fin c) v)) (map (\<lambda>x. x + Fin c) v)
   = map (\<lambda>x. x - maxCoeff v) v"
proof (cases "v = []")
  case True
  then show ?thesis by simp
next
  case False
  then show ?thesis
    by (simp add: maxCoeff_shift shift_cancel maxCoeff_ge)
qed

lemma Step_shift: "Step sc (map (\<lambda>x. x + Fin c) v) d = Step sc v d"
  unfolding Step_def normalise_shift by simp


lemma nth_opt_shifted:
  "list_all2 R xs' xs \<Longrightarrow> rel_option R (nth_opt xs' i) (nth_opt xs i)"
  by (auto simp: nth_opt_def list_all2_lengthD list_all2_nthD)

lemma Decode_step_shifted:
  assumes "list_all2 (list_all2 shifted) input' input"
  shows "Decode_step sc input' b t d = Decode_step sc input b t d"
proof -
  have m: "rel_option (list_all2 shifted) (nth_opt input' t) (nth_opt input t)"
    using assms by (rule nth_opt_shifted)
  show ?thesis
  proof (cases "nth_opt input t")
    case None
    with m have "nth_opt input' t = None" by (cases "nth_opt input' t") simp_all
    with None show ?thesis by (simp add: Decode_step_def)
  next
    case (Some mt)
    with m obtain mt' where mt': "nth_opt input' t = Some mt'" "list_all2 shifted mt' mt"
      by (cases "nth_opt input' t") auto
    have r: "rel_option shifted (nth_opt mt' b) (nth_opt mt b)"
      using mt'(2) by (rule nth_opt_shifted)
    show ?thesis
    proof (cases "nth_opt mt b")
      case None
      with r have "nth_opt mt' b = None" by (cases "nth_opt mt' b") simp_all
      with None Some mt' show ?thesis by (simp add: Decode_step_def)
    next
      case row: (Some row)
      with r obtain row' where row': "nth_opt mt' b = Some row'" "shifted row' row"
        by (cases "nth_opt mt' b") auto
      from row'(2) have "Step sc row' d = Step sc row d"
        by (auto simp: shifted_def Step_shift)
      with row row' Some mt' show ?thesis by (simp add: Decode_step_def)
    qed
  qed
qed

lemma Decode_batch_shifted:
  assumes "list_all2 (list_all2 shifted) input' input"
  shows "Decode_batch sc seq_len input' top_n b s = Decode_batch sc seq_len input top_n b s"
proof -
  have h: "Decode_step sc input' b = Decode_step sc input b"
    by (intro ext) (rule Decode_step_shifted [OF assms])
  show ?thesis unfolding Decode_batch_def h by (rule refl)
qed

text \<open>
  C10. \<open>Step\<close> subtracts the maximum coefficient before it uses the vector, so adding a
  constant to every coefficient of a timestep's vector does not change the state that
  \<open>Step\<close> produces, and \<open>Decode\<close> returns the same state, label sequences and scores on
  inputs whose rows differ by such shifts (one constant per row).
\<close>

theorem Step_shift_invariant:
  "Step sc (map (\<lambda>x. x + Fin c) v) d = Step sc v d
   \<and> (list_all2 (list_all2 shifted) input' input \<longrightarrow>
        Decode sc seq_len input' top_n d = Decode sc seq_len input top_n d)"
proof
  show "Step sc (map (\<lambda>x. x + Fin c) v) d = Step sc v d" by (rule Step_shift)
next
  show "list_all2 (list_all2 shifted) input' input \<longrightarrow>
        Decode sc seq_len input' top_n d = Decode sc seq_len input top_n d"
  proof
    assume a: "list_all2 (list_all2 shifted) input' input"
    have "Decode_batch sc seq_len input' top_n = Decode_batch sc seq_len input top_n"
      by (intro ext) (rule Decode_batch_shifted [OF a])
    then show "Decode sc seq_len input' top_n d = Decode sc seq_len input top_n d"
      by (simp add: Decode_def)
  qed
qed

theorem Step_shift_invariant_witness:
  "list_all2 (list_all2 shifted) [[[Fin 1, Fin 2]]] [[[Fin 0, Fin 1]]]
   \<and> Decode BaseBeamScorer [1] [[[Fin 1, Fin 2]]] 1 (CTCBeamSearchDecoder_raw 2 3 1 False BaseBeamScorer)
     = Decode BaseBeamScorer [1] [[[Fin 0, Fin 1]]] 1 (CTCBeamSearchDecoder_raw 2 3 1 False BaseBeamScorer)"
proof -
  have "shifted [Fin 1, Fin 2] [Fin 0, Fin 1]"
    unfolding shifted_def by (rule exI [of _ 1]) simp
  then have h: "list_all2 (list_all2 shifted) [[[Fin 1, Fin 2]]] [[[Fin 0, Fin 1]]]"
    by simp
  show ?thesis
    using h Step_shift_invariant [of BaseBeamScorer 0 "[]" "CTCBeamSearchDecoder_raw 2 3 1 False BaseBeamScorer"
        "[[[Fin 1, Fin 2]]]" "[[[Fin 0, Fin 1]]]" "[1]" 1]
    by blast
qed

subsection \<open>The body of the second loop\<close>

lemma for_each_append:
  "for_each f (xs @ ys) s =
     (case for_each f xs s of Ok s' \<Rightarrow> for_each f ys s' | Failed e s' \<Rightarrow> Failed e s')"
  by (induction xs arbitrary: s) (simp_all split: result.splits)

lemma update_label_other:
  "update_label sc input b d = Ok d' \<Longrightarrow> x \<noteq> b \<Longrightarrow> heap d' x = heap d x"
  by (auto simp: update_label_def update_newp_def Let_def split: option.splits if_splits)

lemma update_label_leaves:
  "update_label sc input b d = Ok d' \<Longrightarrow>
     leaves d' = leaves d \<and> beam_width d' = beam_width d \<and> blank_index d' = blank_index d
     \<and> num_classes d' = num_classes d"
  by (auto simp: update_label_def update_newp_def Let_def split: option.splits if_splits)

lemma update_label_same:
  "update_label sc input b d = Ok d' \<Longrightarrow>
     oldp (heap d' b) = oldp (heap d b) \<and> state (heap d' b) = state (heap d b)
     \<and> children (heap d' b) = children (heap d b)
     \<and> total (newp (heap d' b)) = total (newp (heap d b))
     \<and> blank (newp (heap d' b)) = blank (newp (heap d b))"
  by (auto simp: update_label_def update_newp_def Let_def split: option.splits if_splits)

lemma update_label_root:
  "update_label sc input [] d = Ok d' \<Longrightarrow> d' = d"
  by (simp add: update_label_def parent_def)

lemma update_label_child:
  assumes "update_label sc input (k # p) d = Ok d'"
  shows "\<exists>x. coeff input k = Some x \<and>
     label (newp (heap d' (k # p))) =
       (if Active (heap d p)
        then LogSumExp (label (newp (heap d (k # p))))
               (GetStateExpansionScore sc (state (heap d (k # p)))
                  (if k = label_of p then blank (oldp (heap d p)) else total (oldp (heap d p))))
        else label (newp (heap d (k # p)))) + x"
  using assms
  by (auto simp: update_label_def update_newp_def Let_def parent_def label_of_def previous_of_def
      split: option.splits if_splits)

lemma update_branch_other:
  "update_branch sc input b d = Ok d' \<Longrightarrow> x \<noteq> b \<Longrightarrow> heap d' x = heap d x"
  by (auto simp: update_branch_def update_newp_def push_leaf_def Let_def
      split: result.splits option.splits dest: update_label_other)

lemma update_branch_label:
  assumes "update_branch sc input b d = Ok d'"
  obtains d1 where "update_label sc input b d = Ok d1"
    and "label (newp (heap d' b)) = label (newp (heap d1 b))"
  using assms
  by (auto simp: update_branch_def update_newp_def push_leaf_def Let_def
      split: result.splits option.splits)

lemma for_each_update_branch_other:
  "for_each (update_branch sc input) bs d = Ok d' \<Longrightarrow> x \<notin> set bs \<Longrightarrow> heap d' x = heap d x"
proof (induction bs arbitrary: d)
  case Nil
  then show ?case by simp
next
  case (Cons b bs)
  then obtain d1 where d1: "update_branch sc input b d = Ok d1"
    "for_each (update_branch sc input) bs d1 = Ok d'"
    by (auto split: result.splits)
  from Cons.IH [OF d1(2)] Cons.prems(2) have "heap d' x = heap d1 x" by simp
  moreover from update_branch_other [OF d1(1)] Cons.prems(2) have "heap d1 x = heap d x" by simp
  ultimately show ?case by simp
qed

subsection \<open>The body of the growth loop\<close>

lemma is_candidate_admitted:
  "leaves d \<noteq> [] \<Longrightarrow> is_candidate d prob = Some (admitted d prob)"
  by (auto simp: is_candidate_def admitted_def peek_bottom_def)

lemma fold_bottom_in:
  "fold (\<lambda>y m. if rank h y < rank h m then y else m) ys m0 \<in> insert m0 (set ys)"
  by (induction ys arbitrary: m0) (simp, force)

lemma TopN_bottom_in: "xs \<noteq> [] \<Longrightarrow> TopN_bottom h xs \<in> set xs"
  using fold_bottom_in [of h "tl xs" "hd xs"]
  by (cases xs) (auto simp: TopN_bottom_def)

lemma TopN_bottom_snoc:
  "xs \<noteq> [] \<Longrightarrow> TopN_bottom h (xs @ [c]) =
     (if rank h c < rank h (TopN_bottom h xs) then c else TopN_bottom h xs)"
  by (cases xs) (simp_all add: TopN_bottom_def)

lemma child_not_self: "b \<notin> set (child_ptrs L b)"
  by (auto simp: child_ptrs_def)

lemma fold_fun_upd_other:
  "x \<notin> set cs \<Longrightarrow> fold (\<lambda>c g. g(c := e)) cs h x = h x"
  by (induction cs arbitrary: h) simp_all

lemma PopulateChildren_children:
  "children (PopulateChildren s L b h b) = child_ptrs L b"
  by (simp add: PopulateChildren_def Let_def)

lemma PopulateChildren_self:
  "PopulateChildren s L b h b = (h b)\<lparr>children := child_ptrs L b\<rparr>"
  by (simp add: PopulateChildren_def Let_def fold_fun_upd_other child_not_self)

lemma child_probs_newp:
  "newp (heap (child_probs sc x b (k # b) d) (k # b)) =
     (let lab = x + GetStateExpansionScore sc
                  (ExpandState sc (state (heap d b)) (label_of b) (state (heap d (k # b))) k)
                  (if k = label_of b then blank (oldp (heap d b)) else total (oldp (heap d b)))
      in \<lparr>total = lab, blank = kLogZero, label = lab\<rparr>)"
  by (simp add: child_probs_def child_expand_def update_newp_def Let_def previous_of_def label_of_def)

lemma child_probs_frame:
  "leaves (child_probs sc x b c d) = leaves d \<and> beam_width (child_probs sc x b c d) = beam_width d
   \<and> num_classes (child_probs sc x b c d) = num_classes d
   \<and> blank_index (child_probs sc x b c d) = blank_index d"
  by (simp add: child_probs_def child_expand_def update_newp_def Let_def)

lemma child_probs_other:
  "y \<noteq> c \<Longrightarrow> heap (child_probs sc x b c d) y = heap d y"
  by (simp add: child_probs_def child_expand_def update_newp_def Let_def)

lemma admitted_push_member:
  assumes "admitted d (newp (heap d c))" and "leaves d \<noteq> []"
  shows "c \<in> set (TopN_push (beam_width d) (heap d) c (leaves d))"
proof (cases "beam_width d < int (length (leaves d @ [c]))")
  case False
  then show ?thesis by (simp add: TopN_push_def)
next
  case True
  let ?m = "TopN_bottom (heap d) (leaves d)"
  from True assms(1) have gt: "rank (heap d) ?m < rank (heap d) c"
    by (auto simp: admitted_def rank_def)
  then have b: "TopN_bottom (heap d) (leaves d @ [c]) = ?m"
    using assms(2) by (auto simp: TopN_bottom_snoc dest: less_asym)
  from gt have "?m \<noteq> c" by auto
  then have "c \<in> set (remove1 ?m (leaves d @ [c]))" by simp
  with True b show ?thesis by (simp add: TopN_push_def Let_def)
qed

subsection \<open>TopPaths\<close>

lemma TopN_push_length:
  "length (TopN_push n h x xs) = (if n < int (length xs) + 1 then length xs else length xs + 1)"
proof -
  have "TopN_bottom h (xs @ [x]) \<in> set (xs @ [x])"
    by (rule TopN_bottom_in) simp
  then have "length (remove1 (TopN_bottom h (xs @ [x])) (xs @ [x])) = length xs"
    by (simp add: length_remove1)
  then show ?thesis by (simp add: TopN_push_def Let_def)
qed

lemma TopN_push_subset: "set (TopN_push n h x xs) \<subseteq> insert x (set xs)"
  using set_remove1_subset [of "TopN_bottom h (xs @ [x])" "xs @ [x]"]
  by (auto simp: TopN_push_def Let_def)

lemma fold_TopN_push_length:
  "0 \<le> n \<Longrightarrow> int (length acc) \<le> n \<Longrightarrow>
     int (length (fold (TopN_push n h) xs acc)) = min n (int (length acc) + int (length xs))"
proof (induction xs arbitrary: acc)
  case Nil
  then show ?case by simp
next
  case (Cons x xs)
  have l: "int (length (TopN_push n h x acc)) \<le> n"
    using Cons.prems by (simp add: TopN_push_length)
  show ?case
    using Cons.IH [OF Cons.prems(1) l] Cons.prems
    by (auto simp: TopN_push_length min_def)
qed

lemma fold_TopN_push_subset:
  "set (fold (TopN_push n h) xs acc) \<subseteq> set acc \<union> set xs"
proof (induction xs arbitrary: acc)
  case Nil
  then show ?case by simp
next
  case (Cons x xs)
  show ?case
    using Cons.IH [of "TopN_push n h x acc"] TopN_push_subset [of n h x acc]
    by auto
qed

lemma TopN_Extract_descending:
  "sorted_wrt (\<lambda>x y. x \<ge> y) (map (rank h) (TopN_Extract h xs))"
proof -
  have "sorted (map (rank h) (sort_key (rank h) xs))" by (rule sorted_sort_key)
  then have "sorted_wrt (\<lambda>x y. x \<ge> y) (rev (map (rank h) (sort_key (rank h) xs)))"
    by (simp add: sorted_wrt_rev)
  then show ?thesis by (simp add: TopN_Extract_def rev_map)
qed

lemma TopN_Extract_set: "set (TopN_Extract h xs) = set xs"
  by (simp add: TopN_Extract_def)

lemma TopN_Extract_length: "length (TopN_Extract h xs) = length xs"
  by (simp add: TopN_Extract_def)

lemma fold_bottom_least:
  "rank h (fold (\<lambda>y m. if rank h y < rank h m then y else m) ys m0) \<le> rank h m0
   \<and> (\<forall>y \<in> set ys. rank h (fold (\<lambda>y m. if rank h y < rank h m then y else m) ys m0) \<le> rank h y)"
proof (induction ys arbitrary: m0)
  case Nil
  then show ?case by simp
next
  case (Cons y ys)
  let ?m1 = "if rank h y < rank h m0 then y else m0"
  from Cons.IH [of ?m1] have a: "rank h (fold (\<lambda>y m. if rank h y < rank h m then y else m) ys ?m1) \<le> rank h ?m1"
    and b: "\<forall>z \<in> set ys. rank h (fold (\<lambda>y m. if rank h y < rank h m then y else m) ys ?m1) \<le> rank h z"
    by simp_all
  have "rank h ?m1 \<le> rank h m0" "rank h ?m1 \<le> rank h y" by auto
  with a b show ?case by (auto intro: order_trans)
qed

lemma TopN_bottom_least:
  "e \<in> set xs \<Longrightarrow> rank h (TopN_bottom h xs) \<le> rank h e"
  using fold_bottom_least [of h "tl xs" "hd xs"]
  by (cases xs) (auto simp: TopN_bottom_def)

lemma fold_TopN_push_top:
  assumes "0 \<le> n" and "int (length acc) \<le> n"
    and "\<forall>y. P y \<longrightarrow> (\<forall>e \<in> set acc. rank h y \<le> rank h e)"
    and "(\<exists>y. P y) \<longrightarrow> n \<le> int (length acc)"
  shows "\<forall>y. P y \<or> y \<in> set acc \<or> y \<in> set xs \<longrightarrow>
           y \<in> set (fold (TopN_push n h) xs acc)
           \<or> (\<forall>e \<in> set (fold (TopN_push n h) xs acc). rank h y \<le> rank h e)"
  using assms
proof (induction xs arbitrary: acc P)
  case Nil
  then show ?case by auto
next
  case (Cons x xs)
  let ?ys = "acc @ [x]"
  let ?m = "TopN_bottom h ?ys"
  show ?case
  proof (cases "n < int (length ?ys)")
    case False
    then have push: "TopN_push n h x acc = ?ys" by (simp add: TopN_push_def)
    from False Cons.prems(4) have noP: "\<not> (\<exists>y. P y)" by auto
    have l: "int (length ?ys) \<le> n" using False by simp
    have "\<forall>y. P y \<or> y \<in> set ?ys \<or> y \<in> set xs \<longrightarrow>
           y \<in> set (fold (TopN_push n h) xs ?ys)
           \<or> (\<forall>e \<in> set (fold (TopN_push n h) xs ?ys). rank h y \<le> rank h e)"
      using noP by (intro Cons.IH [OF Cons.prems(1) l]) auto
    then show ?thesis using push by auto
  next
    case True
    then have push: "TopN_push n h x acc = remove1 ?m ?ys" by (simp add: TopN_push_def Let_def)
    let ?acc' = "remove1 ?m ?ys"
    let ?P' = "\<lambda>y. P y \<or> y = ?m"
    have min: "?m \<in> set ?ys" by (rule TopN_bottom_in) simp
    have len: "int (length ?acc') = int (length acc)"
      using min by (simp add: length_remove1)
    from True Cons.prems(2) have full: "int (length acc) = n" by simp
    have l: "int (length ?acc') \<le> n" using len full by simp
    have b: "(\<exists>y. ?P' y) \<longrightarrow> n \<le> int (length ?acc')" using len full by simp
    have a: "\<forall>y. ?P' y \<longrightarrow> (\<forall>e \<in> set ?acc'. rank h y \<le> rank h e)"
    proof (intro allI impI ballI)
      fix y e
      assume y: "P y \<or> y = ?m" and e: "e \<in> set ?acc'"
      from e have e': "e \<in> set ?ys" using set_remove1_subset [of ?m ?ys] by blast
      show "rank h y \<le> rank h e"
      proof (cases "y = ?m")
        case True
        then show ?thesis using TopN_bottom_least [OF e'] by simp
      next
        case False
        with y have Py: "P y" by simp
        show ?thesis
        proof (cases "e \<in> set acc")
          case True
          with Py Cons.prems(3) show ?thesis by blast
        next
          case False
          with e' have ex: "e = x" by simp
          have "?m \<in> set acc"
          proof (rule ccontr)
            assume "?m \<notin> set acc"
            with min have "?m = x" by simp
            with False ex have "?acc' = acc" by (simp add: remove1_append)
            with e False show False by simp
          qed
          with Py Cons.prems(3) have "rank h y \<le> rank h ?m" by blast
          also have "\<dots> \<le> rank h e" by (rule TopN_bottom_least [OF e'])
          finally show ?thesis .
        qed
      qed
    qed
    have ih: "\<forall>y. ?P' y \<or> y \<in> set ?acc' \<or> y \<in> set xs \<longrightarrow>
           y \<in> set (fold (TopN_push n h) xs ?acc')
           \<or> (\<forall>e \<in> set (fold (TopN_push n h) xs ?acc'). rank h y \<le> rank h e)"
      by (rule Cons.IH [OF Cons.prems(1) l a b])
    have cover: "\<And>y. y \<in> set ?ys \<Longrightarrow> y = ?m \<or> y \<in> set ?acc'"
      by (metis in_set_remove1)
    show ?thesis
    proof (intro allI impI)
      fix y
      assume "P y \<or> y \<in> set acc \<or> y \<in> set (x # xs)"
      then have "?P' y \<or> y \<in> set ?acc' \<or> y \<in> set xs"
        using cover [of y] by auto
      with ih have "y \<in> set (fold (TopN_push n h) xs ?acc')
           \<or> (\<forall>e \<in> set (fold (TopN_push n h) xs ?acc'). rank h y \<le> rank h e)"
        by blast
      then show "y \<in> set (fold (TopN_push n h) (x # xs) acc)
           \<or> (\<forall>e \<in> set (fold (TopN_push n h) (x # xs) acc). rank h y \<le> rank h e)"
        unfolding fold_simps push .
    qed
  qed
qed

lemma TopPaths_best:
  assumes "0 \<le> n"
  shows "\<forall>y \<in> set xs. y \<in> set (TopN_Extract h (fold (TopN_push n h) xs []))
     \<or> (\<forall>e \<in> set (TopN_Extract h (fold (TopN_push n h) xs [])). rank h y \<le> rank h e)"
  using fold_TopN_push_top [of n "[]" "\<lambda>y. False" h xs] assms
  by (simp add: TopN_Extract_set)

text \<open>
  C7. \<open>TopPaths n\<close> fails its \<^verbatim>\<open>CHECK\<close> whenever \<open>n\<close> exceeds \<open>beam_width\<close> or the number of beam
  entries. Otherwise, for a count \<open>n \<ge> 0\<close>, it returns exactly \<open>n\<close> label sequences and \<open>n\<close>
  log-probabilities: the label sequences and \<open>newp.total\<close> of \<open>n\<close> beam entries, in descending
  order of \<open>newp.total\<close>; no beam entry left out has a greater \<open>newp.total\<close> than a returned
  one. \<open>TopPaths\<close> is a function of the decoder only: it has no state to return, the beam
  and the tree are those of its argument.
\<close>

theorem TopPaths_result:
  "(beam_width d < n \<or> int (length (leaves d)) < n \<longrightarrow> TopPaths n merge d = Inl CheckFailed)
   \<and> (0 \<le> n \<and> n \<le> beam_width d \<and> n \<le> int (length (leaves d)) \<longrightarrow>
        (\<exists>es. TopPaths n merge d
                = Inr (map (LabelSeq merge) es, map (\<lambda>e. total (newp (heap d e))) es)
           \<and> int (length es) = n
           \<and> set es \<subseteq> set (leaves d)
           \<and> sorted_wrt (\<lambda>x y. x \<ge> y) (map (\<lambda>e. total (newp (heap d e))) es)
           \<and> (\<forall>y \<in> set (leaves d). y \<in> set es
                  \<or> (\<forall>e \<in> set es. total (newp (heap d y)) \<le> total (newp (heap d e))))))"
proof (intro conjI impI)
  assume "beam_width d < n \<or> int (length (leaves d)) < n"
  then show "TopPaths n merge d = Inl CheckFailed"
    by (auto simp: TopPaths_def)
next
  assume h: "0 \<le> n \<and> n \<le> beam_width d \<and> n \<le> int (length (leaves d))"
  let ?top = "fold (TopN_push n (heap d)) (leaves d) []"
  let ?br = "TopN_Extract (heap d) ?top"
  have len: "int (length ?br) = n"
    using h fold_TopN_push_length [of n "[]" "heap d" "leaves d"]
    by (simp add: TopN_Extract_length)
  then have "nat n = length ?br" by simp
  then have es: "map (\<lambda>i. ?br ! i) [0 ..< nat n] = ?br"
    by (simp add: map_nth)
  have tp: "TopPaths n merge d
      = Inr (map (LabelSeq merge) ?br, map (\<lambda>e. total (newp (heap d e))) ?br)"
    using h unfolding TopPaths_def Let_def es by simp
  have sub: "set ?br \<subseteq> set (leaves d)"
    using fold_TopN_push_subset [of n "heap d" "leaves d" "[]"]
    by (simp add: TopN_Extract_set)
  have srt: "sorted_wrt (\<lambda>x y. x \<ge> y) (map (\<lambda>e. total (newp (heap d e))) ?br)"
    using TopN_Extract_descending [of "heap d" ?top] by (simp add: rank_def [abs_def])
  have best: "\<forall>y \<in> set (leaves d). y \<in> set ?br
      \<or> (\<forall>e \<in> set ?br. total (newp (heap d y)) \<le> total (newp (heap d e)))"
    using h TopPaths_best [of n "leaves d" "heap d"] by (simp add: rank_def)
  from tp len sub srt best
  show "\<exists>es. TopPaths n merge d
                = Inr (map (LabelSeq merge) es, map (\<lambda>e. total (newp (heap d e))) es)
           \<and> int (length es) = n
           \<and> set es \<subseteq> set (leaves d)
           \<and> sorted_wrt (\<lambda>x y. x \<ge> y) (map (\<lambda>e. total (newp (heap d e))) es)
           \<and> (\<forall>y \<in> set (leaves d). y \<in> set es
                  \<or> (\<forall>e \<in> set es. total (newp (heap d y)) \<le> total (newp (heap d e))))"
    by blast
qed

theorem TopPaths_result_witness:
  "beam_width (CTCBeamSearchDecoder 2 1 BaseBeamScorer) < 2
   \<and> TopPaths 2 True (CTCBeamSearchDecoder 2 1 BaseBeamScorer) = Inl CheckFailed
   \<and> (0::int) \<le> 1 \<and> 1 \<le> beam_width example_decoder \<and> 1 \<le> int (length (leaves example_decoder))
   \<and> TopPaths 1 False example_decoder = Inr ([[]], [0])"
proof -
  have a: "beam_width (CTCBeamSearchDecoder 2 1 BaseBeamScorer) < 2"
    by (simp add: CTCBeamSearchDecoder_def CTCBeamSearchDecoder_raw_def Reset_def push_leaf_def Let_def)
  have b: "(0::int) \<le> 1 \<and> 1 \<le> beam_width example_decoder \<and> 1 \<le> int (length (leaves example_decoder))"
    by (simp add: example_decoder_def CTCBeamSearchDecoder_def CTCBeamSearchDecoder_raw_def Reset_def
        push_leaf_def Let_def TopN_push_single)
  have l: "leaves example_decoder = [[]]"
    by (simp add: example_decoder_def CTCBeamSearchDecoder_def CTCBeamSearchDecoder_raw_def Reset_def
        push_leaf_def Let_def TopN_push_single beam_root_def)
  have t: "total (newp (heap example_decoder [])) = 0"
    by (simp add: example_decoder_def CTCBeamSearchDecoder_def CTCBeamSearchDecoder_raw_def Reset_def
        push_leaf_def Let_def TopN_push_single beam_root_def BeamEntry_new_def)
  from TopPaths_result [of "CTCBeamSearchDecoder 2 1 BaseBeamScorer" 2 True] a
  have f: "TopPaths 2 True (CTCBeamSearchDecoder 2 1 BaseBeamScorer) = Inl CheckFailed"
    by blast
  from TopPaths_result [of example_decoder 1 False] b
  obtain es where es: "TopPaths 1 False example_decoder
        = Inr (map (LabelSeq False) es, map (\<lambda>e. total (newp (heap example_decoder e))) es)"
    "int (length es) = 1" "set es \<subseteq> set (leaves example_decoder)"
    by blast
  from es(2,3) l have "es = [[]]" by (cases es) auto
  with es(1) t have "TopPaths 1 False example_decoder = Inr ([[]], [0])"
    by (simp add: LabelSeq_def)
  with a b f show ?thesis by blast
qed

subsection \<open>Step on well-formed decoders\<close>

lemma fold_fun_upd_apply:
  "fold (\<lambda>c g. g(c := e)) cs h x = (if x \<in> set cs then e else h x)"
  by (induction cs arbitrary: h) auto

lemma PopulateChildren_apply:
  "PopulateChildren s L b h x =
     (if x = b then (h b)\<lparr>children := child_ptrs L b\<rparr>
      else if x \<in> set (child_ptrs L b) then BeamEntry_new s else h x)"
  by (simp add: PopulateChildren_def Let_def fold_fun_upd_apply child_not_self)

lemma TopN_push_nonempty: "0 < n \<Longrightarrow> TopN_push n h x xs \<noteq> []"
proof -
  assume "0 < n"
  then have "0 < length (TopN_push n h x xs)"
    by (auto simp: TopN_push_length)
  then show ?thesis by simp
qed

lemma child_label_range:
  "c \<in> set (child_ptrs (nc - 1) b) \<Longrightarrow> c \<noteq> [] \<and> 0 \<le> hd c \<and> hd c < nc"
  by (auto simp: child_ptrs_def)

lemma coeff_in_range: "0 \<le> k \<Longrightarrow> k < int (length v) \<Longrightarrow> \<exists>x. coeff v k = Some x"
  by (simp add: coeff_def)

lemma well_formed_update_newp: "well_formed (update_newp b f d) = well_formed d"
  by (auto simp: well_formed_def update_newp_def)

lemma well_formed_update_oldp: "well_formed (update_oldp b f d) = well_formed d"
  by (auto simp: well_formed_def update_oldp_def)

lemma well_formed_push_leaf:
  assumes "well_formed d" and "b \<noteq> [] \<longrightarrow> 0 \<le> hd b \<and> hd b < num_classes d"
  shows "well_formed (push_leaf b d) \<and> leaves (push_leaf b d) \<noteq> []"
proof -
  have "set (leaves (push_leaf b d)) \<subseteq> insert b (set (leaves d))"
    by (simp add: push_leaf_def TopN_push_subset)
  moreover have "leaves (push_leaf b d) \<noteq> []"
    using assms(1) by (simp add: push_leaf_def TopN_push_nonempty well_formed_def)
  moreover have "heap (push_leaf b d) = heap d" "num_classes (push_leaf b d) = num_classes d"
    "beam_width (push_leaf b d) = beam_width d" "blank_index (push_leaf b d) = blank_index d"
    by (simp_all add: push_leaf_def)
  ultimately show ?thesis using assms unfolding well_formed_def by (metis insertE subsetD)
qed

lemma update_label_ok:
  assumes "well_formed d" and "num_classes d = int (length input)"
    and "b \<noteq> [] \<longrightarrow> 0 \<le> hd b \<and> hd b < num_classes d"
  shows "\<exists>d'. update_label sc input b d = Ok d' \<and> well_formed d'
            \<and> leaves d' = leaves d \<and> num_classes d' = num_classes d"
proof (cases b)
  case Nil
  with assms show ?thesis by (simp add: update_label_def parent_def)
next
  case (Cons k p)
  with assms(2,3) obtain x where "coeff input (label_of b) = Some x"
    using coeff_in_range [of k input] by (auto simp: label_of_def)
  with Cons assms(1) show ?thesis
    by (simp add: update_label_def parent_def Let_def well_formed_update_newp)
      (simp add: update_newp_def)
qed

lemma update_branch_ok:
  assumes "well_formed d" and "num_classes d = int (length input)"
    and "b \<noteq> [] \<longrightarrow> 0 \<le> hd b \<and> hd b < num_classes d"
  shows "\<exists>d'. update_branch sc input b d = Ok d' \<and> well_formed d'
            \<and> leaves d' \<noteq> [] \<and> num_classes d' = num_classes d"
proof -
  from update_label_ok [OF assms] obtain d1 where d1: "update_label sc input b d = Ok d1"
    "well_formed d1" "num_classes d1 = num_classes d"
    by blast
  from d1(2,3) assms(2) obtain x where x: "coeff input (blank_index d1) = Some x"
    using coeff_in_range [of "blank_index d1" input] by (auto simp: well_formed_def)
  let ?d2 = "update_newp b (\<lambda>q. q\<lparr>blank := total (oldp (heap d1 b)) + x\<rparr>) d1"
  let ?d3 = "update_newp b (\<lambda>q. q\<lparr>total := LogSumExp (blank q) (label q)\<rparr>) ?d2"
  have w3: "well_formed ?d3" using d1(2) by (simp add: well_formed_update_newp)
  have n3: "num_classes ?d3 = num_classes d" using d1(3) by (simp add: update_newp_def)
  have "well_formed (push_leaf b ?d3) \<and> leaves (push_leaf b ?d3) \<noteq> []"
    using w3 assms(3) n3 by (intro well_formed_push_leaf) simp_all
  moreover have "num_classes (push_leaf b ?d3) = num_classes d"
    using n3 by (simp add: push_leaf_def)
  moreover have "update_branch sc input b d = Ok (push_leaf b ?d3)"
    using d1(1) x by (simp add: update_branch_def Let_def)
  ultimately show ?thesis by blast
qed

lemma for_each_update_branch_ok:
  assumes "well_formed d" and "num_classes d = int (length input)"
    and "\<forall>b \<in> set bs. b \<noteq> [] \<longrightarrow> 0 \<le> hd b \<and> hd b < num_classes d"
  shows "\<exists>d'. for_each (update_branch sc input) bs d = Ok d' \<and> well_formed d'
            \<and> (bs \<noteq> [] \<or> leaves d \<noteq> [] \<longrightarrow> leaves d' \<noteq> []) \<and> num_classes d' = num_classes d"
  using assms
proof (induction bs arbitrary: d)
  case Nil
  then show ?case by simp
next
  case (Cons b bs)
  from update_branch_ok [OF Cons.prems(1,2), of b sc] Cons.prems(3)
  obtain d1 where d1: "update_branch sc input b d = Ok d1" "well_formed d1"
    "leaves d1 \<noteq> []" "num_classes d1 = num_classes d"
    by auto
  from Cons.IH [OF d1(2)] d1(4) Cons.prems(2,3)
  obtain d' where "for_each (update_branch sc input) bs d1 = Ok d'" "well_formed d'"
    "bs \<noteq> [] \<or> leaves d1 \<noteq> [] \<longrightarrow> leaves d' \<noteq> []" "num_classes d' = num_classes d1"
    by auto
  with d1 show ?case by simp
qed


lemma well_formed_child_probs: "well_formed (child_probs sc x b c d) = well_formed d"
  by (auto simp: well_formed_def child_probs_def child_expand_def update_newp_def Let_def)

lemma grow_child_ok:
  assumes "well_formed d" and "leaves d \<noteq> []" and "num_classes d = int (length input)"
    and "c \<in> set (child_ptrs (num_classes d - 1) b)"
  shows "\<exists>d'. grow_child sc input b c d = Ok d' \<and> well_formed d'
            \<and> leaves d' \<noteq> [] \<and> num_classes d' = num_classes d"
proof (cases "Active (heap d c)")
  case True
  with assms show ?thesis by (simp add: grow_child_def)
next
  case False
  from child_label_range [OF assms(4)] have c: "c \<noteq> []" "0 \<le> hd c" "hd c < num_classes d"
    by simp_all
  then have "label_of c = hd c" by (cases c) (simp_all add: label_of_def)
  with c assms(3) obtain x where x: "coeff input (label_of c) = Some x"
    using coeff_in_range [of "hd c" input] by auto
  let ?d1 = "child_probs sc x b c d"
  have w1: "well_formed ?d1" using assms(1) by (simp add: well_formed_child_probs)
  have l1: "leaves ?d1 = leaves d" and n1: "num_classes ?d1 = num_classes d"
    by (simp_all add: child_probs_frame)
  have ne: "leaves ?d1 \<noteq> []" using assms(2) l1 by simp
  have cand: "is_candidate ?d1 (newp (heap ?d1 c)) = Some (admitted ?d1 (newp (heap ?d1 c)))"
    using ne by (rule is_candidate_admitted)
  have pk: "peek_bottom (heap ?d1) (leaves ?d1) = Some (TopN_bottom (heap ?d1) (leaves ?d1))"
    using ne by (simp add: peek_bottom_def)
  show ?thesis
  proof (cases "admitted ?d1 (newp (heap ?d1 c))")
    case True
    let ?d2 = "push_leaf c ?d1"
    let ?d' = "if int (length (leaves ?d2)) = beam_width ?d2
               then update_newp (TopN_bottom (heap ?d1) (leaves ?d1)) (\<lambda>q. BeamProbability_Reset) ?d2
               else ?d2"
    have g: "grow_child sc input b c d = Ok ?d'"
      using False x True cand pk by (simp add: grow_child_def Let_def)
    have w2: "well_formed ?d2 \<and> leaves ?d2 \<noteq> []"
      using w1 c n1 by (intro well_formed_push_leaf) simp_all
    have n2: "num_classes ?d2 = num_classes d" using n1 by (simp add: push_leaf_def)
    have "well_formed ?d' \<and> leaves ?d' \<noteq> [] \<and> num_classes ?d' = num_classes d"
      using w2 n2 by (simp add: well_formed_update_newp) (simp add: update_newp_def)
    with g show ?thesis by blast
  next
    case a: False
    let ?d' = "update_newp c (\<lambda>q. BeamProbability_Reset)
                 (update_oldp c (\<lambda>q. BeamProbability_Reset) ?d1)"
    have g: "grow_child sc input b c d = Ok ?d'"
      using False x a cand by (simp add: grow_child_def Let_def)
    have "well_formed ?d'" using w1 by (simp add: well_formed_update_newp well_formed_update_oldp)
    moreover have "leaves ?d' \<noteq> [] \<and> num_classes ?d' = num_classes d"
      using ne n1 by (simp add: update_newp_def update_oldp_def)
    ultimately show ?thesis using g by blast
  qed
qed

lemma for_each_grow_child_ok:
  assumes "well_formed d" and "leaves d \<noteq> []" and "num_classes d = int (length input)"
    and "set cs \<subseteq> set (child_ptrs (num_classes d - 1) b)"
  shows "\<exists>d'. for_each (grow_child sc input b) cs d = Ok d' \<and> well_formed d'
            \<and> leaves d' \<noteq> [] \<and> num_classes d' = num_classes d"
  using assms
proof (induction cs arbitrary: d)
  case Nil
  then show ?case by simp
next
  case (Cons c cs)
  from Cons.prems(4) have "c \<in> set (child_ptrs (num_classes d - 1) b)" by simp
  from grow_child_ok [OF Cons.prems(1,2,3) this, of sc]
  obtain d1 where d1: "grow_child sc input b c d = Ok d1" "well_formed d1"
    "leaves d1 \<noteq> []" "num_classes d1 = num_classes d"
    by blast
  from Cons.IH [OF d1(2,3)] d1(4) Cons.prems(3,4)
  obtain d' where "for_each (grow_child sc input b) cs d1 = Ok d'" "well_formed d'"
    "leaves d' \<noteq> []" "num_classes d' = num_classes d1"
    by auto
  with d1 show ?case by simp
qed

lemma well_formed_populate:
  assumes "well_formed d"
  shows "well_formed (d\<lparr>heap := PopulateChildren s (num_classes d - 1) b (heap d)\<rparr>)"
  using assms
  by (auto simp: well_formed_def PopulateChildren_apply BeamEntry_new_def)

lemma grow_leaf_ok:
  assumes "well_formed d" and "leaves d \<noteq> []" and "num_classes d = int (length input)"
  shows "\<exists>d'. grow_leaf sc input b d = Ok d' \<and> well_formed d'
            \<and> leaves d' \<noteq> [] \<and> num_classes d' = num_classes d"
proof (cases "admitted d (oldp (heap d b))")
  case False
  with assms show ?thesis by (simp add: grow_leaf_def is_candidate_admitted)
next
  case True
  let ?d1 = "if \<not> HasChildren (heap d b)
             then d\<lparr>heap := PopulateChildren (fresh_state sc) (num_classes d - 1) b (heap d)\<rparr>
             else d"
  have g: "grow_leaf sc input b d = for_each (grow_child sc input b) (children (heap ?d1 b)) ?d1"
    using True assms(2) by (simp add: grow_leaf_def is_candidate_admitted Let_def)
  have w1: "well_formed ?d1" using assms(1) by (simp add: well_formed_populate)
  have l1: "leaves ?d1 \<noteq> []" and n1: "num_classes ?d1 = int (length input)"
    using assms(2,3) by simp_all
  have "set (children (heap ?d1 b)) \<subseteq> set (child_ptrs (num_classes ?d1 - 1) b)"
    using w1 unfolding well_formed_def by blast
  from for_each_grow_child_ok [OF w1 l1 n1 this, of sc] g assms(3) n1
  show ?thesis by auto
qed

lemma for_each_grow_leaf_ok:
  assumes "well_formed d" and "leaves d \<noteq> []" and "num_classes d = int (length input)"
  shows "\<exists>d'. for_each (grow_leaf sc input) bs d = Ok d' \<and> well_formed d'"
  using assms
proof (induction bs arbitrary: d)
  case Nil
  then show ?case by simp
next
  case (Cons b bs)
  from grow_leaf_ok [OF Cons.prems, of sc b]
  obtain d1 where d1: "grow_leaf sc input b d = Ok d1" "well_formed d1"
    "leaves d1 \<noteq> []" "num_classes d1 = num_classes d"
    by blast
  from Cons.IH [OF d1(2,3)] d1(4) Cons.prems(3)
  obtain d' where "for_each (grow_leaf sc input) bs d1 = Ok d'" "well_formed d'"
    by auto
  with d1 show ?case by simp
qed

lemma well_formed_shift:
  "well_formed d \<Longrightarrow> leaves d = [] \<Longrightarrow> well_formed (fold shift_probs bs d) \<and> leaves (fold shift_probs bs d) = []
     \<and> num_classes (fold shift_probs bs d) = num_classes d"
proof (induction bs arbitrary: d)
  case Nil
  then show ?case by simp
next
  case (Cons b bs)
  have "well_formed (shift_probs b d)" "leaves (shift_probs b d) = []"
    "num_classes (shift_probs b d) = num_classes d"
    using Cons.prems by (simp_all add: shift_probs_def well_formed_update_oldp) (simp_all add: update_oldp_def)
  with Cons.IH [of "shift_probs b d"] show ?case by simp
qed

lemma Step_ok:
  assumes "well_formed d" and "num_classes d = int (length v)"
  shows "\<exists>d'. Step sc v d = Ok d' \<and> well_formed d'"
proof -
  let ?input = "map (\<lambda>x. x - maxCoeff v) v"
  let ?br = "TopN_Extract (heap d) (leaves d)"
  let ?d2 = "fold shift_probs ?br (d\<lparr>leaves := []\<rparr>)"
  have n: "num_classes d = int (length ?input)" using assms(2) by simp
  have "well_formed (d\<lparr>leaves := []\<rparr>)" using assms(1) by (simp add: well_formed_def)
  from well_formed_shift [OF this, of ?br]
  have w2: "well_formed ?d2" and l2: "leaves ?d2 = []" and n2: "num_classes ?d2 = int (length ?input)"
    using n by simp_all
  have lab: "\<forall>b \<in> set ?br. b \<noteq> [] \<longrightarrow> 0 \<le> hd b \<and> hd b < num_classes ?d2"
    using assms(1) n n2 by (simp add: TopN_Extract_set well_formed_def)
  from for_each_update_branch_ok [OF w2 n2 lab, of sc]
  obtain d3 where d3: "for_each (update_branch sc ?input) ?br ?d2 = Ok d3" "well_formed d3"
    "?br \<noteq> [] \<longrightarrow> leaves d3 \<noteq> []" "num_classes d3 = num_classes ?d2"
    by auto
  have st: "Step sc v d = for_each (grow_leaf sc ?input) ?br d3"
    using n d3(1) by (simp add: Step_def Let_def)
  show ?thesis
  proof (cases "?br = []")
    case True
    with st d3(2) show ?thesis by simp
  next
    case False
    with d3(3) have ne: "leaves d3 \<noteq> []" by simp
    from d3(4) n2 have n3: "num_classes d3 = int (length ?input)" by simp
    from for_each_grow_leaf_ok [OF d3(2) ne n3, of sc ?br] st show ?thesis by simp
  qed
qed

lemma well_formed_Reset:
  "0 < beam_width d \<Longrightarrow> 0 < num_classes d \<Longrightarrow> blank_index d = num_classes d - 1 \<Longrightarrow>
     well_formed (Reset sc d)"
  by (auto simp: well_formed_def Reset_def push_leaf_def TopN_push_single Let_def BeamEntry_new_def
      beam_root_def)

text \<open>
  C8. When the length of the input vector differs from \<open>num_classes\<close>, \<open>Step\<close> fails its
  \<^verbatim>\<open>CHECK\<close> in the very state it was called in: nothing has been mutated. When the length
  matches, \<open>Step\<close> on a well-formed decoder completes (no other check can fail) and the new
  decoder is well-formed again; the decoders built by the constructor with a positive
  beam width and at least one class are well-formed.
\<close>

theorem Step_fail_fast:
  "(num_classes d \<noteq> int (length v) \<longrightarrow> Step sc v d = Failed CheckFailed d)
   \<and> (num_classes d = int (length v) \<and> well_formed d \<longrightarrow>
        (\<exists>d'. Step sc v d = Ok d' \<and> well_formed d'))
   \<and> (0 < bw \<and> 0 < nc \<longrightarrow> well_formed (CTCBeamSearchDecoder nc bw sc))"
proof (intro conjI impI)
  assume "num_classes d \<noteq> int (length v)"
  then show "Step sc v d = Failed CheckFailed d" by (simp add: Step_def)
next
  assume "num_classes d = int (length v) \<and> well_formed d"
  then show "\<exists>d'. Step sc v d = Ok d' \<and> well_formed d'" using Step_ok by blast
next
  assume "0 < bw \<and> 0 < nc"
  then show "well_formed (CTCBeamSearchDecoder nc bw sc)"
    unfolding CTCBeamSearchDecoder_def
    by (intro well_formed_Reset) (simp_all add: CTCBeamSearchDecoder_raw_def)
qed

theorem Step_fail_fast_witness:
  "num_classes example_decoder \<noteq> int (length [Fin 0])
   \<and> Step BaseBeamScorer [Fin 0] example_decoder = Failed CheckFailed example_decoder
   \<and> num_classes example_decoder = int (length [Fin (- 1), Fin 0])
   \<and> (0::int) < 3 \<and> (0::int) < 2
   \<and> well_formed example_decoder
   \<and> (\<exists>d'. Step BaseBeamScorer [Fin (- 1), Fin 0] example_decoder = Ok d' \<and> well_formed d')"
proof -
  have n: "num_classes example_decoder = 2"
    by (simp add: example_decoder_def CTCBeamSearchDecoder_def CTCBeamSearchDecoder_raw_def Reset_def
        push_leaf_def Let_def)
  have a: "num_classes example_decoder \<noteq> int (length [Fin 0])" using n by simp
  have b: "num_classes example_decoder = int (length [Fin (- 1), Fin 0])" using n by simp
  from Step_fail_fast [of example_decoder "[Fin 0]" BaseBeamScorer 3 2]
  have w: "well_formed example_decoder" and f: "Step BaseBeamScorer [Fin 0] example_decoder
      = Failed CheckFailed example_decoder"
    using a by (simp_all add: example_decoder_def)
  from Step_fail_fast [of example_decoder "[Fin (- 1), Fin 0]" BaseBeamScorer 3 2] b w
  have "\<exists>d'. Step BaseBeamScorer [Fin (- 1), Fin 0] example_decoder = Ok d' \<and> well_formed d'"
    by blast
  with a b w f show ?thesis by simp
qed

subsection \<open>Evaluation with log-probabilities of rational probabilities\<close>

lemma lg_plus: "0 \<le> p \<Longrightarrow> 0 \<le> q \<Longrightarrow> lg p + lg q = lg (p * q)"
  by (auto simp: lg_def ln_mult zero_less_mult_iff)

lemma lg_minus: "0 \<le> p \<Longrightarrow> 0 < q \<Longrightarrow> lg p - lg q = lg (p / q)"
  by (auto simp: lg_def ln_div zero_less_divide_iff)

lemma lg_LogSumExp: "0 \<le> p \<Longrightarrow> 0 \<le> q \<Longrightarrow> LogSumExp (lg p) (lg q) = lg (p + q)"
  by (auto simp: lg_def)

lemma lg_le: "0 \<le> p \<Longrightarrow> 0 \<le> q \<Longrightarrow> lg p \<le> lg q \<longleftrightarrow> p \<le> q"
  by (auto simp: lg_def)

lemma lg_less: "0 \<le> p \<Longrightarrow> 0 \<le> q \<Longrightarrow> lg p < lg q \<longleftrightarrow> p < q"
  by (auto simp: lg_def less_score_def)

lemma lg_eq: "0 \<le> p \<Longrightarrow> 0 \<le> q \<Longrightarrow> lg p = lg q \<longleftrightarrow> p = q"
  by (auto simp: lg_def)

lemma lg_max: "0 \<le> p \<Longrightarrow> 0 \<le> q \<Longrightarrow> max (lg p) (lg q) = lg (max p q)"
  by (simp add: max_def lg_le)

lemma negate_eq: "negate x = negate y \<longleftrightarrow> x = y"
  by (cases x; cases y) simp_all

lemma negate_lg_less: "0 < p \<Longrightarrow> 0 < q \<Longrightarrow> negate (lg p) < negate (lg q) \<longleftrightarrow> q < p"
  by (auto simp: lg_def less_cost_def)

lemma negate_lg_zero: "(0 :: cost) = negate (lg 1)"
  by (simp add: lg_def zero_cost_def)

lemma lg_zero: "(0 :: score) = lg 1"
  by (simp add: lg_def zero_score_def)

lemma lg_kLogZero: "kLogZero = lg 0"
  by (simp add: lg_def kLogZero_def)

lemmas lg_simps = lg_plus lg_minus lg_LogSumExp lg_le lg_less lg_eq lg_max lg_zero lg_kLogZero
  negate_eq negate_lg_less negate_lg_zero

lemmas run_defs = Step_def Let_def update_branch_def update_label_def grow_leaf_def grow_child_def
  child_probs_def child_expand_def is_candidate_def peek_bottom_def TopN_bottom_def TopN_push_def TopN_Extract_def
  push_leaf_def update_newp_def update_oldp_def shift_probs_def previous_of_def coeff_def maxCoeff_def
  parent_def label_of_def Active_def HasChildren_def PopulateChildren_def child_ptrs_def
  BeamEntry_new_def BeamProbability_Reset_def rank_def
  Reset_def beam_root_def CTCBeamSearchDecoder_def CTCBeamSearchDecoder_raw_def BaseBeamScorer_def
  TopPaths_def LabelSeq_def finalize_entry_def Decode_def Decode_batch_def Decode_step_def nth_opt_def

subsection \<open>The total of an active node\<close>


lemma total_consistent_same_heap:
  "total_consistent d \<Longrightarrow> heap d' = heap d \<Longrightarrow> total_consistent d'"
  by (simp add: total_consistent_def)















lemma grow_child_activated:
  assumes "\<not> Active (heap d (k # b))" and "grow_child sc input b (k # b) d = Ok d'"
    and "Active (heap d' (k # b))"
  shows "blank (newp (heap d' (k # b))) = kLogZero
       \<and> total (newp (heap d' (k # b))) = label (newp (heap d' (k # b)))
       \<and> oldp (heap d' (k # b)) = oldp (heap d (k # b))"
proof -
  let ?c = "k # b"
  from assms(1,2) obtain x where x: "coeff input (label_of ?c) = Some x"
    by (auto simp: grow_child_def split: option.splits)
  let ?d1 = "child_probs sc x b ?c d"
  have n1: "blank (newp (heap ?d1 ?c)) = kLogZero
      \<and> total (newp (heap ?d1 ?c)) = label (newp (heap ?d1 ?c))
      \<and> oldp (heap ?d1 ?c) = oldp (heap d ?c)"
    by (simp add: child_probs_def child_expand_def update_newp_def Let_def)
  from assms(1,2) x
  consider (push) "d' = push_leaf ?c ?d1"
    | (pushreset) m where "d' = update_newp m (\<lambda>q. BeamProbability_Reset) (push_leaf ?c ?d1)"
    | (reject) "d' = update_newp ?c (\<lambda>q. BeamProbability_Reset)
                      (update_oldp ?c (\<lambda>q. BeamProbability_Reset) ?d1)"
    by (auto simp: grow_child_def Let_def split: option.splits bool.splits if_splits)
  then show ?thesis
  proof cases
    case push
    with n1 show ?thesis by (simp add: push_leaf_def)
  next
    case pushreset
    show ?thesis
    proof (cases "m = ?c")
      case True
      with pushreset assms(3) show ?thesis
        by (simp add: update_newp_def push_leaf_def Active_def BeamProbability_Reset_def)
    next
      case False
      with pushreset n1 show ?thesis by (simp add: update_newp_def push_leaf_def)
    qed
  next
    case reject
    with assms(3) show ?thesis
      by (simp add: update_newp_def update_oldp_def Active_def BeamProbability_Reset_def)
  qed
qed

subsection \<open>The phases of Step\<close>

lemma Step_Ok_phases:
  assumes "Step sc v d = Ok d'"
  shows "\<exists>d3. for_each (update_branch sc (Step_input v)) (Step_branches d) (Step_shifted d) = Ok d3
           \<and> for_each (grow_leaf sc (Step_input v)) (Step_branches d) d3 = Ok d'"
  using assms
  by (auto simp: Step_def Step_input_def Step_branches_def Step_shifted_def Let_def
      split: if_splits result.splits)

lemma for_each_split:
  assumes "for_each f (xs @ y # zs) s = Ok s'"
  shows "\<exists>s1 s2. for_each f xs s = Ok s1 \<and> f y s1 = Ok s2 \<and> for_each f zs s2 = Ok s'"
  using assms by (auto simp: for_each_append split: result.splits)

lemma shift_probs_frame:
  "leaves (shift_probs b d) = leaves d \<and> blank_index (shift_probs b d) = blank_index d
   \<and> num_classes (shift_probs b d) = num_classes d \<and> beam_width (shift_probs b d) = beam_width d"
  by (simp add: shift_probs_def update_oldp_def)

lemma fold_shift_frame:
  "leaves (fold shift_probs bs d) = leaves d \<and> blank_index (fold shift_probs bs d) = blank_index d
   \<and> num_classes (fold shift_probs bs d) = num_classes d
   \<and> beam_width (fold shift_probs bs d) = beam_width d"
  by (induction bs arbitrary: d) (simp_all add: shift_probs_frame)

lemma fold_shift_heap:
  "heap (fold shift_probs bs d) x
     = (if x \<in> set bs then (heap d x)\<lparr>oldp := newp (heap d x)\<rparr> else heap d x)"
proof (induction bs arbitrary: d)
  case Nil
  then show ?case by simp
next
  case (Cons b bs)
  show ?case
    by (simp add: Cons.IH) (simp add: shift_probs_def update_oldp_def)
qed

lemma Step_shifted_heap:
  "heap (Step_shifted d) x
     = (if x \<in> set (leaves d) then (heap d x)\<lparr>oldp := newp (heap d x)\<rparr> else heap d x)"
  by (simp add: Step_shifted_def Step_branches_def fold_shift_heap TopN_Extract_set)

lemma Step_shifted_frame:
  "leaves (Step_shifted d) = [] \<and> blank_index (Step_shifted d) = blank_index d
   \<and> num_classes (Step_shifted d) = num_classes d \<and> beam_width (Step_shifted d) = beam_width d"
  by (simp add: Step_shifted_def fold_shift_frame)

lemma update_branch_frame:
  assumes "update_branch sc input b d = Ok d'"
  shows "blank_index d' = blank_index d \<and> num_classes d' = num_classes d
       \<and> beam_width d' = beam_width d
       \<and> oldp (heap d' x) = oldp (heap d x) \<and> state (heap d' x) = state (heap d x)"
proof -
  from assms obtain d1 xb where d1: "update_label sc input b d = Ok d1"
    and d': "d' = push_leaf b (update_newp b (\<lambda>q. q\<lparr>total := LogSumExp (blank q) (label q)\<rparr>)
                (update_newp b (\<lambda>q. q\<lparr>blank := total (oldp (heap d1 b)) + xb\<rparr>) d1))"
    by (auto simp: update_branch_def Let_def split: result.splits option.splits)
  have f1: "blank_index d1 = blank_index d \<and> num_classes d1 = num_classes d
      \<and> beam_width d1 = beam_width d"
    using update_label_leaves [OF d1] by simp
  have h1: "oldp (heap d1 x) = oldp (heap d x) \<and> state (heap d1 x) = state (heap d x)"
    using update_label_other [OF d1, of x] update_label_same [OF d1] by (cases "x = b") simp_all
  show ?thesis
    unfolding d' using f1 h1 by (auto simp: push_leaf_def update_newp_def)
qed

lemma for_each_update_branch_frame:
  "for_each (update_branch sc input) bs d = Ok d' \<Longrightarrow>
     blank_index d' = blank_index d \<and> num_classes d' = num_classes d
     \<and> beam_width d' = beam_width d
     \<and> oldp (heap d' x) = oldp (heap d x) \<and> state (heap d' x) = state (heap d x)"
proof (induction bs arbitrary: d)
  case Nil
  then show ?case by simp
next
  case (Cons b bs)
  then obtain d1 where d1: "update_branch sc input b d = Ok d1"
    "for_each (update_branch sc input) bs d1 = Ok d'"
    by (auto split: result.splits)
  from Cons.IH [OF d1(2)] update_branch_frame [OF d1(1), of x] show ?case by simp
qed


lemma kept_refl: "kept_or_renewed d d x"
  by (simp add: kept_or_renewed_def)

lemma kept_trans:
  "kept_or_renewed d d1 x \<Longrightarrow> kept_or_renewed d1 d2 x \<Longrightarrow> kept_or_renewed d d2 x"
  by (auto simp: kept_or_renewed_def)

lemma kept_for_each:
  assumes "\<And>y s s'. f y s = Ok s' \<Longrightarrow> kept_or_renewed s s' x"
  shows "for_each f ys d = Ok d' \<Longrightarrow> kept_or_renewed d d' x"
proof (induction ys arbitrary: d)
  case Nil
  then show ?case by (simp add: kept_refl)
next
  case (Cons y ys)
  then obtain d1 where d1: "f y d = Ok d1" "for_each f ys d1 = Ok d'"
    by (auto split: result.splits)
  from assms [OF d1(1)] Cons.IH [OF d1(2)] show ?case by (rule kept_trans)
qed

lemma grow_child_cases:
  assumes "grow_child sc input b c d = Ok d'" and "\<not> Active (heap d c)"
  obtains x where "coeff input (label_of c) = Some x"
    and "d' = push_leaf c (child_probs sc x b c d)
       \<or> (\<exists>m. d' = update_newp m (\<lambda>q. BeamProbability_Reset) (push_leaf c (child_probs sc x b c d)))
       \<or> d' = update_newp c (\<lambda>q. BeamProbability_Reset)
                 (update_oldp c (\<lambda>q. BeamProbability_Reset) (child_probs sc x b c d))"
proof -
  from assms obtain x where x: "coeff input (label_of c) = Some x"
    by (auto simp: grow_child_def split: option.splits)
  from assms x have "d' = push_leaf c (child_probs sc x b c d)
       \<or> (\<exists>m. d' = update_newp m (\<lambda>q. BeamProbability_Reset) (push_leaf c (child_probs sc x b c d)))
       \<or> d' = update_newp c (\<lambda>q. BeamProbability_Reset)
                 (update_oldp c (\<lambda>q. BeamProbability_Reset) (child_probs sc x b c d))"
    by (auto simp: grow_child_def Let_def split: option.splits bool.splits if_splits)
  with x that show ?thesis by blast
qed

lemma child_probs_kept: "kept_or_renewed d (child_probs sc x b c d) y"
  by (simp add: kept_or_renewed_def child_probs_def child_expand_def update_newp_def Let_def)

lemma grow_child_kept:
  assumes "grow_child sc input b c d = Ok d'"
  shows "kept_or_renewed d d' y"
proof (cases "Active (heap d c)")
  case True
  with assms show ?thesis by (simp add: grow_child_def kept_refl)
next
  case False
  from assms False obtain x where
    "d' = push_leaf c (child_probs sc x b c d)
       \<or> (\<exists>m. d' = update_newp m (\<lambda>q. BeamProbability_Reset) (push_leaf c (child_probs sc x b c d)))
       \<or> d' = update_newp c (\<lambda>q. BeamProbability_Reset)
                 (update_oldp c (\<lambda>q. BeamProbability_Reset) (child_probs sc x b c d))"
    by (rule grow_child_cases)
  moreover have "kept_or_renewed d (child_probs sc x b c d) y" by (rule child_probs_kept)
  ultimately show ?thesis
    by (auto simp: kept_or_renewed_def push_leaf_def update_newp_def update_oldp_def)
qed

lemma populate_kept:
  "kept_or_renewed d (d\<lparr>heap := PopulateChildren s L b (heap d)\<rparr>) y"
  by (simp add: kept_or_renewed_def PopulateChildren_apply BeamEntry_new_def)

lemma grow_leaf_kept:
  assumes "grow_leaf sc input b d = Ok d'"
  shows "kept_or_renewed d d' y"
proof -
  let ?d1 = "if \<not> HasChildren (heap d b)
             then d\<lparr>heap := PopulateChildren (fresh_state sc) (num_classes d - 1) b (heap d)\<rparr>
             else d"
  have k1: "kept_or_renewed d ?d1 y" by (simp add: populate_kept kept_refl)
  show ?thesis
  proof (cases "is_candidate d (oldp (heap d b))")
    case None
    with assms show ?thesis by (simp add: grow_leaf_def)
  next
    case (Some a)
    show ?thesis
    proof (cases a)
      case False
      with Some assms show ?thesis by (simp add: grow_leaf_def kept_refl)
    next
      case True
      with Some assms
      have 2: "for_each (grow_child sc input b) (children (heap ?d1 b)) ?d1 = Ok d'"
        by (simp add: grow_leaf_def Let_def)
      have "kept_or_renewed ?d1 d' y"
        by (rule kept_for_each [OF _ 2]) (rule grow_child_kept)
      with k1 show ?thesis by (rule kept_trans)
    qed
  qed
qed

lemma growth_kept:
  "for_each (grow_leaf sc input) bs d = Ok d' \<Longrightarrow> kept_or_renewed d d' y"
  by (rule kept_for_each [of "grow_leaf sc input"]) (rule grow_leaf_kept)

lemma is_candidate_Some: "is_candidate d prob = Some a \<Longrightarrow> a = admitted d prob"
  by (auto simp: is_candidate_def admitted_def peek_bottom_def split: if_splits)

lemma grow_child_frame:
  assumes "grow_child sc input b c d = Ok d'"
  shows "num_classes d' = num_classes d \<and> beam_width d' = beam_width d
       \<and> blank_index d' = blank_index d"
proof (cases "Active (heap d c)")
  case True
  with assms show ?thesis by (simp add: grow_child_def)
next
  case False
  from assms False obtain x where
    "d' = push_leaf c (child_probs sc x b c d)
       \<or> (\<exists>m. d' = update_newp m (\<lambda>q. BeamProbability_Reset) (push_leaf c (child_probs sc x b c d)))
       \<or> d' = update_newp c (\<lambda>q. BeamProbability_Reset)
                 (update_oldp c (\<lambda>q. BeamProbability_Reset) (child_probs sc x b c d))"
    by (rule grow_child_cases)
  then show ?thesis
    using child_probs_frame [of sc x b c d]
    by (auto simp: push_leaf_def update_newp_def update_oldp_def)
qed

lemma for_each_grow_child_frame:
  "for_each (grow_child sc input b) cs d = Ok d' \<Longrightarrow>
     num_classes d' = num_classes d \<and> beam_width d' = beam_width d
     \<and> blank_index d' = blank_index d"
proof (induction cs arbitrary: d)
  case Nil
  then show ?case by simp
next
  case (Cons c cs)
  then obtain d1 where d1: "grow_child sc input b c d = Ok d1"
    "for_each (grow_child sc input b) cs d1 = Ok d'"
    by (auto split: result.splits)
  from Cons.IH [OF d1(2)] grow_child_frame [OF d1(1)] show ?case by simp
qed

lemma grow_leaf_Ok:
  assumes "grow_leaf sc input b d = Ok d'"
  shows "(\<not> admitted d (oldp (heap d b)) \<longrightarrow> d' = d)
       \<and> (admitted d (oldp (heap d b)) \<longrightarrow>
            for_each (grow_child sc input b)
              (if HasChildren (heap d b) then children (heap d b)
               else child_ptrs (num_classes d - 1) b)
              (if HasChildren (heap d b) then d
               else d\<lparr>heap := PopulateChildren (fresh_state sc) (num_classes d - 1) b (heap d)\<rparr>)
            = Ok d')"
proof (cases "is_candidate d (oldp (heap d b))")
  case None
  with assms show ?thesis by (simp add: grow_leaf_def)
next
  case (Some a)
  then have a: "a = admitted d (oldp (heap d b))" by (rule is_candidate_Some)
  show ?thesis
  proof (cases a)
    case False
    with Some a assms show ?thesis by (simp add: grow_leaf_def)
  next
    case True
    with Some a assms show ?thesis
      by (auto simp: grow_leaf_def Let_def PopulateChildren_children split: if_splits)
  qed
qed

lemma grow_leaf_frame:
  assumes "grow_leaf sc input b d = Ok d'"
  shows "num_classes d' = num_classes d \<and> beam_width d' = beam_width d
       \<and> blank_index d' = blank_index d"
proof (cases "admitted d (oldp (heap d b))")
  case False
  with grow_leaf_Ok [OF assms] show ?thesis by simp
next
  case True
  with grow_leaf_Ok [OF assms] for_each_grow_child_frame show ?thesis
    by (fastforce split: if_splits)
qed

lemma for_each_grow_leaf_frame:
  "for_each (grow_leaf sc input) bs d = Ok d' \<Longrightarrow>
     num_classes d' = num_classes d \<and> beam_width d' = beam_width d
     \<and> blank_index d' = blank_index d"
proof (induction bs arbitrary: d)
  case Nil
  then show ?case by simp
next
  case (Cons b bs)
  then obtain d1 where d1: "grow_leaf sc input b d = Ok d1"
    "for_each (grow_leaf sc input) bs d1 = Ok d'"
    by (auto split: result.splits)
  from Cons.IH [OF d1(2)] grow_leaf_frame [OF d1(1)] show ?case by simp
qed

lemma child_probs_newp_general:
  "c \<noteq> b \<Longrightarrow> newp (heap (child_probs sc x b c d) c) =
     (let lab = x + GetStateExpansionScore sc
                  (ExpandState sc (state (heap d b)) (label_of b) (state (heap d c)) (label_of c))
                  (if label_of c = label_of b then blank (oldp (heap d b))
                   else total (oldp (heap d b)))
      in \<lparr>total = lab, blank = kLogZero, label = lab\<rparr>)"
  by (simp add: child_probs_def child_expand_def update_newp_def Let_def previous_of_def)

lemma grow_child_Ok:
  assumes "grow_child sc input b c d = Ok d'"
  shows "(Active (heap d c) \<longrightarrow> d' = d)
       \<and> (\<not> Active (heap d c) \<longrightarrow>
            (\<exists>x. coeff input (label_of c) = Some x
               \<and> (admitted (child_probs sc x b c d) (newp (heap (child_probs sc x b c d) c)) \<longrightarrow>
                    leaves d' = TopN_push (beam_width d) (heap (child_probs sc x b c d)) c (leaves d)
                    \<and> c \<in> set (leaves d'))
               \<and> (\<not> admitted (child_probs sc x b c d) (newp (heap (child_probs sc x b c d) c)) \<longrightarrow>
                    leaves d' = leaves d
                    \<and> oldp (heap d' c) = BeamProbability_Reset
                    \<and> newp (heap d' c) = BeamProbability_Reset)))"
proof (cases "Active (heap d c)")
  case True
  with assms show ?thesis by (simp add: grow_child_def)
next
  case False
  from assms False obtain x where x: "coeff input (label_of c) = Some x"
    by (auto simp: grow_child_def split: option.splits)
  let ?d1 = "child_probs sc x b c d"
  have l1: "leaves ?d1 = leaves d" and w1: "beam_width ?d1 = beam_width d"
    by (simp_all add: child_probs_frame)
  from assms False x obtain a where cand: "is_candidate ?d1 (newp (heap ?d1 c)) = Some a"
    by (cases "is_candidate ?d1 (newp (heap ?d1 c))") (simp_all add: grow_child_def Let_def)
  then have a: "a = admitted ?d1 (newp (heap ?d1 c))" by (rule is_candidate_Some)
  show ?thesis
  proof (cases a)
    case True
    with assms False x cand obtain m where pk: "peek_bottom (heap ?d1) (leaves ?d1) = Some m"
      by (cases "peek_bottom (heap ?d1) (leaves ?d1)") (simp_all add: grow_child_def Let_def)
    then have ne: "leaves ?d1 \<noteq> []" by (auto simp: peek_bottom_def split: if_splits)
    let ?d2 = "push_leaf c ?d1"
    from assms False x cand True pk
    have d': "d' = (if int (length (leaves ?d2)) = beam_width ?d2
                    then update_newp m (\<lambda>q. BeamProbability_Reset) ?d2 else ?d2)"
      by (auto simp: grow_child_def Let_def split: if_splits)
    have lv: "leaves d' = TopN_push (beam_width d) (heap ?d1) c (leaves d)"
      unfolding d' by (simp add: push_leaf_def update_newp_def l1 w1)
    have "c \<in> set (TopN_push (beam_width ?d1) (heap ?d1) c (leaves ?d1))"
      using True a ne by (intro admitted_push_member) simp_all
    then have "c \<in> set (leaves d')" using lv by (simp add: l1 w1)
    with lv x True a False show ?thesis by auto
  next
    case no: False
    with assms False x cand
    have d': "d' = update_newp c (\<lambda>q. BeamProbability_Reset)
                     (update_oldp c (\<lambda>q. BeamProbability_Reset) ?d1)"
      by (simp add: grow_child_def Let_def)
    have "leaves d' = leaves d \<and> oldp (heap d' c) = BeamProbability_Reset
        \<and> newp (heap d' c) = BeamProbability_Reset"
      unfolding d' by (simp add: update_newp_def update_oldp_def l1)
    with x no a False show ?thesis by auto
  qed
qed

lemma grow_child_examined:
  assumes "grow_child sc input b c dc = Ok dc'"
  shows "(Active (heap dc c) \<longrightarrow> dc' = dc)
       \<and> (\<not> Active (heap dc c) \<longrightarrow>
            (\<exists>x d1. coeff input (label_of c) = Some x \<and> d1 = child_probs sc x b c dc
               \<and> (c \<noteq> b \<longrightarrow> newp (heap d1 c) =
                     (let lab = x + GetStateExpansionScore sc
                                  (ExpandState sc (state (heap dc b)) (label_of b)
                                     (state (heap dc c)) (label_of c))
                                  (if label_of c = label_of b then blank (oldp (heap dc b))
                                   else total (oldp (heap dc b)))
                      in \<lparr>total = lab, blank = kLogZero, label = lab\<rparr>))
               \<and> (admitted d1 (newp (heap d1 c)) \<longrightarrow>
                    leaves dc' = TopN_push (beam_width dc) (heap d1) c (leaves dc)
                    \<and> c \<in> set (leaves dc'))
               \<and> (\<not> admitted d1 (newp (heap d1 c)) \<longrightarrow>
                    leaves dc' = leaves dc
                    \<and> oldp (heap dc' c) = BeamProbability_Reset
                    \<and> newp (heap dc' c) = BeamProbability_Reset)))"
  using grow_child_Ok [OF assms] child_probs_newp_general [of c b sc _ dc]
  by (auto simp del: Let_def)


lemma negate_lg_sentinel: "negate (lg 0) = PosInf"
  by (simp add: lg_def)

lemmas phase_defs = Step_input_def Step_branches_def Step_shifted_def

subsection \<open>The recurrence of the second loop in Step\<close>

lemma graves_steps_eval:
  "\<exists>d d'. graves_steps 1 = Ok d
     \<and> Step BaseBeamScorer [lg 0.4, lg 0.6] d = Ok d'
     \<and> graves_steps 2 = Ok d'
     \<and> Step_branches d = [[], [0]]
     \<and> leaves d = [[], [0]]
     \<and> newp (heap d []) = \<lparr>total = lg 1, blank = lg 1, label = lg 0\<rparr>
     \<and> newp (heap d [0]) = \<lparr>total = lg (3/7), blank = lg 0, label = lg (3/7)\<rparr>
     \<and> newp (heap d' [0]) = \<lparr>total = lg (29/21), blank = lg (3/7), label = lg (20/21)\<rparr>"
  unfolding graves_steps_def
  by (simp add: run_defs phase_defs lg_simps upt_rec)

lemma graves_second_loop_eval:
  "\<exists>d dm. graves_steps 1 = Ok d
     \<and> for_each (update_branch BaseBeamScorer (Step_input [lg 0.4, lg 0.6])) [[]] (Step_shifted d) = Ok dm
     \<and> Active (heap dm [])
     \<and> coeff (Step_input [lg 0.4, lg 0.6]) 0 = Some (lg (2/3))"
  unfolding graves_steps_def
  by (simp add: run_defs phase_defs lg_simps upt_rec)

text \<open>
  C1, as the code has it. Let \<open>Step\<close> complete on the vector \<open>v\<close>, and let \<open>b\<close> be an entry
  extracted from the prior beam, at its last position in the extracted list. The second
  loop runs over the extracted entries from the decoder in which the beam is emptied and
  \<open>oldp\<close> of every extracted entry is its former \<open>newp\<close>; when it reaches \<open>b\<close> (the state
  \<open>dm\<close>) the scorer state of \<open>b\<close> is the one before \<open>Step\<close>, and so is \<open>newp\<close> of \<open>b\<close> when \<open>b\<close>
  occurs once. For the root the loop leaves \<open>newp.label\<close> as it is. For any other entry, with
  label \<open>k\<close> and parent \<open>p\<close>: if the parent is active at that moment, \<open>newp.label\<close> becomes the
  log-sum of its value and the scorer's expansion score of the \<open>previous\<close> probability
  (\<open>p\<close>'s \<open>oldp.blank\<close> if \<open>k\<close> is the label of \<open>p\<close>, \<open>p\<close>'s \<open>oldp.total\<close> otherwise); then the
  coefficient \<open>k\<close> of the vector is added (also when the parent is inactive), where the
  vector is \<open>v\<close> after the subtraction of its maximum. The growth loop that follows leaves
  this \<open>newp\<close>, resets it, or gives \<open>b\<close> the probabilities of a newly activated child.
\<close>

theorem Step_label_recurrence:
  assumes "Step sc v d = Ok d'" and "Step_branches d = bs1 @ b # bs2" and "b \<notin> set bs2"
  shows "\<exists>dm d3.
      for_each (update_branch sc (Step_input v)) bs1 (Step_shifted d) = Ok dm
    \<and> for_each (update_branch sc (Step_input v)) (Step_branches d) (Step_shifted d) = Ok d3
    \<and> for_each (grow_leaf sc (Step_input v)) (Step_branches d) d3 = Ok d'
    \<and> state (heap dm b) = state (heap d b)
    \<and> (b \<notin> set bs1 \<longrightarrow> newp (heap dm b) = newp (heap d b))
    \<and> (\<forall>p. oldp (heap dm p) = (if p \<in> set (leaves d) then newp (heap d p) else oldp (heap d p)))
    \<and> (case b of
          [] \<Rightarrow> label (newp (heap d3 b)) = label (newp (heap dm b))
        | k # p \<Rightarrow> \<exists>x. coeff (Step_input v) k = Some x \<and>
            label (newp (heap d3 b)) =
              (if Active (heap dm p)
               then LogSumExp (label (newp (heap dm b)))
                      (GetStateExpansionScore sc (state (heap dm b))
                         (if k = label_of p then blank (oldp (heap dm p))
                          else total (oldp (heap dm p))))
               else label (newp (heap dm b))) + x)
    \<and> (newp (heap d' b) = newp (heap d3 b)
        \<or> newp (heap d' b) = BeamProbability_Reset
        \<or> (blank (newp (heap d' b)) = kLogZero
            \<and> total (newp (heap d' b)) = label (newp (heap d' b))))"
proof -
  let ?f = "update_branch sc (Step_input v)"
  from Step_Ok_phases [OF assms(1)] obtain d3
    where d3: "for_each ?f (Step_branches d) (Step_shifted d) = Ok d3"
      and d': "for_each (grow_leaf sc (Step_input v)) (Step_branches d) d3 = Ok d'"
    by blast
  from d3 assms(2) have d3': "for_each ?f (bs1 @ b # bs2) (Step_shifted d) = Ok d3" by simp
  from for_each_split [OF d3'] obtain dm d1 where dm: "for_each ?f bs1 (Step_shifted d) = Ok dm"
    and d1: "?f b dm = Ok d1" and rest: "for_each ?f bs2 d1 = Ok d3"
    by blast
  have st: "state (heap dm b) = state (heap d b)"
    using for_each_update_branch_frame [OF dm, of b] by (simp add: Step_shifted_heap)
  have nw: "b \<notin> set bs1 \<longrightarrow> newp (heap dm b) = newp (heap d b)"
    using for_each_update_branch_other [OF dm, of b] by (auto simp: Step_shifted_heap)
  have old: "\<forall>p. oldp (heap dm p) = (if p \<in> set (leaves d) then newp (heap d p) else oldp (heap d p))"
    using for_each_update_branch_frame [OF dm] by (simp add: Step_shifted_heap)
  from d1 obtain d2 where d2: "update_label sc (Step_input v) b dm = Ok d2"
    and l: "label (newp (heap d1 b)) = label (newp (heap d2 b))"
    by (rule update_branch_label)
  have keep: "heap d3 b = heap d1 b"
    using rest assms(3) by (rule for_each_update_branch_other)
  have rec: "case b of
          [] \<Rightarrow> label (newp (heap d3 b)) = label (newp (heap dm b))
        | k # p \<Rightarrow> \<exists>x. coeff (Step_input v) k = Some x \<and>
            label (newp (heap d3 b)) =
              (if Active (heap dm p)
               then LogSumExp (label (newp (heap dm b)))
                      (GetStateExpansionScore sc (state (heap dm b))
                         (if k = label_of p then blank (oldp (heap dm p))
                          else total (oldp (heap dm p))))
               else label (newp (heap dm b))) + x"
  proof (cases b)
    case Nil
    with d2 have "d2 = dm" by (simp add: update_label_root)
    with Nil keep l show ?thesis by simp
  next
    case (Cons k p)
    with update_label_child [of sc "Step_input v" k p dm d2] d2 keep l show ?thesis
      by auto
  qed
  have "kept_or_renewed d3 d' b" using d' by (rule growth_kept)
  then have post: "newp (heap d' b) = newp (heap d3 b)
        \<or> newp (heap d' b) = BeamProbability_Reset
        \<or> (blank (newp (heap d' b)) = kLogZero
            \<and> total (newp (heap d' b)) = label (newp (heap d' b)))"
    by (auto simp: kept_or_renewed_def)
  from dm d3 d' st nw old rec post show ?thesis by blast
qed

theorem Step_label_recurrence_witness:
  "\<exists>d d' dm d3. graves_steps 1 = Ok d
     \<and> Step BaseBeamScorer [lg 0.4, lg 0.6] d = Ok d'
     \<and> Step_branches d = [[]] @ [0] # []
     \<and> [0] \<notin> set ([] :: ptr list)
     \<and> for_each (update_branch BaseBeamScorer (Step_input [lg 0.4, lg 0.6])) [[]] (Step_shifted d) = Ok dm
     \<and> for_each (update_branch BaseBeamScorer (Step_input [lg 0.4, lg 0.6])) (Step_branches d)
           (Step_shifted d) = Ok d3
     \<and> for_each (grow_leaf BaseBeamScorer (Step_input [lg 0.4, lg 0.6])) (Step_branches d) d3 = Ok d'
     \<and> Active (heap dm [])
     \<and> newp (heap dm [0]) = newp (heap d [0])
     \<and> oldp (heap dm []) = newp (heap d [])
     \<and> coeff (Step_input [lg 0.4, lg 0.6]) 0 = Some (lg (2/3))
     \<and> label (newp (heap d3 [0]))
         = LogSumExp (label (newp (heap dm [0])))
             (GetStateExpansionScore BaseBeamScorer (state (heap dm [0])) (total (oldp (heap dm []))))
           + lg (2/3)
     \<and> label (newp (heap d3 [0])) = lg (20/21)
     \<and> newp (heap d' [0]) = newp (heap d3 [0])"
proof -
  from graves_steps_eval obtain d d' where d: "graves_steps 1 = Ok d"
    and s: "Step BaseBeamScorer [lg 0.4, lg 0.6] d = Ok d'"
    and br: "Step_branches d = [[], [0]]" and lv: "leaves d = [[], [0]]"
    and n0: "newp (heap d []) = \<lparr>total = lg 1, blank = lg 1, label = lg 0\<rparr>"
    and n1: "newp (heap d [0]) = \<lparr>total = lg (3/7), blank = lg 0, label = lg (3/7)\<rparr>"
    and n2: "newp (heap d' [0]) = \<lparr>total = lg (29/21), blank = lg (3/7), label = lg (20/21)\<rparr>"
    by blast
  have br': "Step_branches d = [[]] @ [0] # []" using br by simp
  have nin: "[0] \<notin> set ([] :: ptr list)" by simp
  from Step_label_recurrence [OF s br' nin] obtain dm d3
    where dm: "for_each (update_branch BaseBeamScorer (Step_input [lg 0.4, lg 0.6])) [[]] (Step_shifted d) = Ok dm"
      and d3: "for_each (update_branch BaseBeamScorer (Step_input [lg 0.4, lg 0.6])) (Step_branches d)
           (Step_shifted d) = Ok d3"
      and g: "for_each (grow_leaf BaseBeamScorer (Step_input [lg 0.4, lg 0.6])) (Step_branches d) d3 = Ok d'"
      and nw: "[0] \<notin> set [[]] \<longrightarrow> newp (heap dm [0]) = newp (heap d [0])"
      and old: "\<forall>p. oldp (heap dm p) = (if p \<in> set (leaves d) then newp (heap d p) else oldp (heap d p))"
      and rec: "\<exists>x. coeff (Step_input [lg 0.4, lg 0.6]) 0 = Some x \<and>
            label (newp (heap d3 [0])) =
              (if Active (heap dm [])
               then LogSumExp (label (newp (heap dm [0])))
                      (GetStateExpansionScore BaseBeamScorer (state (heap dm [0]))
                         (if 0 = label_of [] then blank (oldp (heap dm []))
                          else total (oldp (heap dm []))))
               else label (newp (heap dm [0]))) + x"
      and post: "newp (heap d' [0]) = newp (heap d3 [0])
        \<or> newp (heap d' [0]) = BeamProbability_Reset
        \<or> (blank (newp (heap d' [0])) = kLogZero
            \<and> total (newp (heap d' [0])) = label (newp (heap d' [0])))"
    by auto
  from graves_second_loop_eval d dm have a: "Active (heap dm [])"
    and c: "coeff (Step_input [lg 0.4, lg 0.6]) 0 = Some (lg (2/3))"
    by auto
  have nw': "newp (heap dm [0]) = newp (heap d [0])" using nw by simp
  have old': "oldp (heap dm []) = newp (heap d [])" using old lv by simp
  have r: "label (newp (heap d3 [0]))
         = LogSumExp (label (newp (heap dm [0])))
             (GetStateExpansionScore BaseBeamScorer (state (heap dm [0])) (total (oldp (heap dm []))))
           + lg (2/3)"
    using rec a c by (simp add: label_of_def)
  have v: "label (newp (heap d3 [0])) = lg (20/21)"
    unfolding r nw' old' n0 n1 by (simp add: BaseBeamScorer_def lg_simps)
  have p: "newp (heap d' [0]) = newp (heap d3 [0])"
    using post n2 by (auto simp: BeamProbability_Reset_def lg_simps)
  from d s br' nin dm d3 g a nw' old' c r v p show ?thesis by blast
qed

text \<open>With the coefficient of the vector as supplied, the recurrence gives another value:
  at the second timestep of the example the label probability of \<open>[a]\<close> becomes
  \<open>log (20/21)\<close>, while the log-sum plus \<open>log 0.4\<close> is \<open>log (4/7)\<close>.\<close>

theorem Step_label_counterexample:
  "graves_steps 1 = Ok (state_of (graves_steps 1))
   \<and> Step BaseBeamScorer [lg 0.4, lg 0.6] (state_of (graves_steps 1)) = Ok (state_of (graves_steps 2))
   \<and> [0] \<in> set (Step_branches (state_of (graves_steps 1)))
   \<and> Active (heap (state_of (graves_steps 1)) [])
   \<and> coeff [lg 0.4, lg 0.6] (label_of [0]) = Some (lg 0.4)
   \<and> label (newp (heap (state_of (graves_steps 2)) [0])) = lg (20/21)
   \<and> LogSumExp (label (newp (heap (state_of (graves_steps 1)) [0])))
         (GetStateExpansionScore BaseBeamScorer (state (heap (state_of (graves_steps 1)) [0]))
            (total (newp (heap (state_of (graves_steps 1)) []))))
       + lg 0.4 = lg (4/7)
   \<and> label (newp (heap (state_of (graves_steps 2)) [0]))
       \<noteq> LogSumExp (label (newp (heap (state_of (graves_steps 1)) [0])))
           (GetStateExpansionScore BaseBeamScorer (state (heap (state_of (graves_steps 1)) [0]))
              (total (newp (heap (state_of (graves_steps 1)) []))))
         + lg 0.4"
proof -
  from graves_steps_eval obtain d d' where d: "graves_steps 1 = Ok d"
    and s: "Step BaseBeamScorer [lg 0.4, lg 0.6] d = Ok d'"
    and d2: "graves_steps 2 = Ok d'"
    and br: "Step_branches d = [[], [0]]"
    and n0: "newp (heap d []) = \<lparr>total = lg 1, blank = lg 1, label = lg 0\<rparr>"
    and n1: "newp (heap d [0]) = \<lparr>total = lg (3/7), blank = lg 0, label = lg (3/7)\<rparr>"
    and n2: "newp (heap d' [0]) = \<lparr>total = lg (29/21), blank = lg (3/7), label = lg (20/21)\<rparr>"
    by blast
  have s1: "state_of (graves_steps 1) = d" unfolding state_of_def d by simp
  have s2: "state_of (graves_steps 2) = d'" unfolding state_of_def d2 by simp
  show ?thesis
    unfolding s1 s2 using d s br n0 n1 n2
    by (simp add: Active_def BaseBeamScorer_def coeff_def label_of_def lg_simps)
qed

subsection \<open>The admission test in Step\<close>

lemma growth_eval:
  "\<exists>d' d3. Step BaseBeamScorer [lg 0.3, lg 0.7] example_decoder = Ok d'
     \<and> Step_branches example_decoder = [[]]
     \<and> num_classes example_decoder = 2
     \<and> for_each (update_branch BaseBeamScorer (Step_input [lg 0.3, lg 0.7]))
           (Step_branches example_decoder) (Step_shifted example_decoder) = Ok d3
     \<and> admitted d3 (oldp (heap d3 []))
     \<and> \<not> HasChildren (heap d3 [])
     \<and> child_ptrs 1 [] = [[0]]
     \<and> \<not> Active (heap (d3\<lparr>heap := PopulateChildren (fresh_state BaseBeamScorer) 1 [] (heap d3)\<rparr>) [0])
     \<and> coeff (Step_input [lg 0.3, lg 0.7]) (label_of [0]) = Some (lg (3/7))
     \<and> admitted (child_probs BaseBeamScorer (lg (3/7)) [] [0]
                   (d3\<lparr>heap := PopulateChildren (fresh_state BaseBeamScorer) 1 [] (heap d3)\<rparr>))
          \<lparr>total = lg (3/7), blank = kLogZero, label = lg (3/7)\<rparr>
     \<and> oldp (heap d3 []) = \<lparr>total = lg 1, blank = lg 1, label = lg 0\<rparr>"
  unfolding example_decoder_def
  by (simp add: run_defs phase_defs admitted_def lg_simps upt_rec)

text \<open>
  C4. Let \<open>Step\<close> complete, and let \<open>b\<close> be at any position of the list of the entries
  extracted from the prior beam. After the second loop over the extracted entries, the
  growth loop runs over the same list; let \<open>dg\<close> be the decoder when it reaches \<open>b\<close>. If
  \<open>oldp\<close> of \<open>b\<close> fails the admission test, the iteration changes nothing. If it passes,
  the children of \<open>b\<close> are instantiated when \<open>b\<close> has none (one per non-blank class), and every
  child \<open>c\<close> is examined in turn: an active child is left alone; for an inactive child the
  probabilities are computed from the coefficient of its label, \<open>newp.blank\<close> at the
  sentinel and \<open>newp.total = newp.label\<close>, and the child is pushed into the beam if this
  \<open>newp\<close> passes the admission test; otherwise the beam is unchanged and both probability
  pairs of the child are reset.
\<close>

theorem Step_growth_admission:
  assumes "Step sc v d = Ok d'" and "Step_branches d = bs1 @ b # bs2"
  shows "\<exists>d3 dg dg'.
      for_each (update_branch sc (Step_input v)) (Step_branches d) (Step_shifted d) = Ok d3
    \<and> for_each (grow_leaf sc (Step_input v)) bs1 d3 = Ok dg
    \<and> grow_leaf sc (Step_input v) b dg = Ok dg'
    \<and> for_each (grow_leaf sc (Step_input v)) bs2 dg' = Ok d'
    \<and> (\<not> admitted dg (oldp (heap dg b)) \<longrightarrow> dg' = dg)
    \<and> (admitted dg (oldp (heap dg b)) \<longrightarrow>
         (\<exists>dp cs.
             dp = (if HasChildren (heap dg b) then dg
                   else dg\<lparr>heap := PopulateChildren (fresh_state sc) (num_classes d - 1) b (heap dg)\<rparr>)
           \<and> cs = (if HasChildren (heap dg b) then children (heap dg b)
                   else child_ptrs (num_classes d - 1) b)
           \<and> children (heap dp b) = cs
           \<and> for_each (grow_child sc (Step_input v) b) cs dp = Ok dg'
           \<and> (\<forall>cs1 c cs2. cs = cs1 @ c # cs2 \<longrightarrow>
                (\<exists>dc dc'.
                    for_each (grow_child sc (Step_input v) b) cs1 dp = Ok dc
                  \<and> grow_child sc (Step_input v) b c dc = Ok dc'
                  \<and> for_each (grow_child sc (Step_input v) b) cs2 dc' = Ok dg'
                  \<and> (Active (heap dc c) \<longrightarrow> dc' = dc)
                  \<and> (\<not> Active (heap dc c) \<longrightarrow>
                       (\<exists>x d1. coeff (Step_input v) (label_of c) = Some x
                          \<and> d1 = child_probs sc x b c dc
                          \<and> (c \<noteq> b \<longrightarrow> newp (heap d1 c) =
                                (let lab = x + GetStateExpansionScore sc
                                             (ExpandState sc (state (heap dc b)) (label_of b)
                                                (state (heap dc c)) (label_of c))
                                             (if label_of c = label_of b
                                              then blank (oldp (heap dc b))
                                              else total (oldp (heap dc b)))
                                 in \<lparr>total = lab, blank = kLogZero, label = lab\<rparr>))
                          \<and> (admitted d1 (newp (heap d1 c)) \<longrightarrow>
                               leaves dc' = TopN_push (beam_width dc) (heap d1) c (leaves dc)
                               \<and> c \<in> set (leaves dc'))
                          \<and> (\<not> admitted d1 (newp (heap d1 c)) \<longrightarrow>
                               leaves dc' = leaves dc
                               \<and> oldp (heap dc' c) = BeamProbability_Reset
                               \<and> newp (heap dc' c) = BeamProbability_Reset)))))))"
proof -
  let ?input = "Step_input v"
  let ?gl = "grow_leaf sc ?input"
  let ?gc = "grow_child sc ?input b"
  from Step_Ok_phases [OF assms(1)] obtain d3
    where d3: "for_each (update_branch sc ?input) (Step_branches d) (Step_shifted d) = Ok d3"
      and d': "for_each ?gl (Step_branches d) d3 = Ok d'"
    by blast
  from d' assms(2) have "for_each ?gl (bs1 @ b # bs2) d3 = Ok d'" by simp
  from for_each_split [OF this] obtain dg dg' where dg: "for_each ?gl bs1 d3 = Ok dg"
    and g: "?gl b dg = Ok dg'" and rest: "for_each ?gl bs2 dg' = Ok d'"
    by blast
  have nc: "num_classes dg = num_classes d"
    using for_each_grow_leaf_frame [OF dg] for_each_update_branch_frame [OF d3]
    by (simp add: Step_shifted_frame)
  let ?dp = "if HasChildren (heap dg b) then dg
             else dg\<lparr>heap := PopulateChildren (fresh_state sc) (num_classes d - 1) b (heap dg)\<rparr>"
  let ?cs = "if HasChildren (heap dg b) then children (heap dg b)
             else child_ptrs (num_classes d - 1) b"
  have skip: "\<not> admitted dg (oldp (heap dg b)) \<longrightarrow> dg' = dg"
    using grow_leaf_Ok [OF g] by simp
  have grow: "admitted dg (oldp (heap dg b)) \<longrightarrow>
      children (heap ?dp b) = ?cs \<and> for_each ?gc ?cs ?dp = Ok dg'
      \<and> (\<forall>cs1 c cs2. ?cs = cs1 @ c # cs2 \<longrightarrow>
            (\<exists>dc dc'. for_each ?gc cs1 ?dp = Ok dc \<and> ?gc c dc = Ok dc'
               \<and> for_each ?gc cs2 dc' = Ok dg'))"
  proof
    assume a: "admitted dg (oldp (heap dg b))"
    have ch: "children (heap ?dp b) = ?cs" by (simp add: PopulateChildren_children)
    have run: "for_each ?gc ?cs ?dp = Ok dg'"
      using grow_leaf_Ok [OF g] a nc by (cases "HasChildren (heap dg b)") simp_all
    have "\<forall>cs1 c cs2. ?cs = cs1 @ c # cs2 \<longrightarrow>
            (\<exists>dc dc'. for_each ?gc cs1 ?dp = Ok dc \<and> ?gc c dc = Ok dc'
               \<and> for_each ?gc cs2 dc' = Ok dg')"
    proof (intro allI impI)
      fix cs1 c cs2
      assume "?cs = cs1 @ c # cs2"
      with run have "for_each ?gc (cs1 @ c # cs2) ?dp = Ok dg'" by simp
      from for_each_split [OF this]
      show "\<exists>dc dc'. for_each ?gc cs1 ?dp = Ok dc \<and> ?gc c dc = Ok dc'
               \<and> for_each ?gc cs2 dc' = Ok dg'"
        by blast
    qed
    with ch run show "children (heap ?dp b) = ?cs \<and> for_each ?gc ?cs ?dp = Ok dg'
      \<and> (\<forall>cs1 c cs2. ?cs = cs1 @ c # cs2 \<longrightarrow>
            (\<exists>dc dc'. for_each ?gc cs1 ?dp = Ok dc \<and> ?gc c dc = Ok dc'
               \<and> for_each ?gc cs2 dc' = Ok dg'))"
      by blast
  qed
  show ?thesis
  proof (intro exI conjI)
    show "for_each (update_branch sc ?input) (Step_branches d) (Step_shifted d) = Ok d3" by (rule d3)
    show "for_each ?gl bs1 d3 = Ok dg" by (rule dg)
    show "?gl b dg = Ok dg'" by (rule g)
    show "for_each ?gl bs2 dg' = Ok d'" by (rule rest)
    show "\<not> admitted dg (oldp (heap dg b)) \<longrightarrow> dg' = dg" by (rule skip)
    show "admitted dg (oldp (heap dg b)) \<longrightarrow>
         (\<exists>dp cs.
             dp = ?dp \<and> cs = ?cs
           \<and> children (heap dp b) = cs
           \<and> for_each ?gc cs dp = Ok dg'
           \<and> (\<forall>cs1 c cs2. cs = cs1 @ c # cs2 \<longrightarrow>
                (\<exists>dc dc'.
                    for_each ?gc cs1 dp = Ok dc
                  \<and> ?gc c dc = Ok dc'
                  \<and> for_each ?gc cs2 dc' = Ok dg'
                  \<and> (Active (heap dc c) \<longrightarrow> dc' = dc)
                  \<and> (\<not> Active (heap dc c) \<longrightarrow>
                       (\<exists>x d1. coeff ?input (label_of c) = Some x
                          \<and> d1 = child_probs sc x b c dc
                          \<and> (c \<noteq> b \<longrightarrow> newp (heap d1 c) =
                                (let lab = x + GetStateExpansionScore sc
                                             (ExpandState sc (state (heap dc b)) (label_of b)
                                                (state (heap dc c)) (label_of c))
                                             (if label_of c = label_of b
                                              then blank (oldp (heap dc b))
                                              else total (oldp (heap dc b)))
                                 in \<lparr>total = lab, blank = kLogZero, label = lab\<rparr>))
                          \<and> (admitted d1 (newp (heap d1 c)) \<longrightarrow>
                               leaves dc' = TopN_push (beam_width dc) (heap d1) c (leaves dc)
                               \<and> c \<in> set (leaves dc'))
                          \<and> (\<not> admitted d1 (newp (heap d1 c)) \<longrightarrow>
                               leaves dc' = leaves dc
                               \<and> oldp (heap dc' c) = BeamProbability_Reset
                               \<and> newp (heap dc' c) = BeamProbability_Reset))))))"
    proof
      assume a: "admitted dg (oldp (heap dg b))"
      with grow have ch: "children (heap ?dp b) = ?cs" and run: "for_each ?gc ?cs ?dp = Ok dg'"
        and sp: "\<forall>cs1 c cs2. ?cs = cs1 @ c # cs2 \<longrightarrow>
            (\<exists>dc dc'. for_each ?gc cs1 ?dp = Ok dc \<and> ?gc c dc = Ok dc'
               \<and> for_each ?gc cs2 dc' = Ok dg')"
        by blast+
      show "\<exists>dp cs.
             dp = ?dp \<and> cs = ?cs
           \<and> children (heap dp b) = cs
           \<and> for_each ?gc cs dp = Ok dg'
           \<and> (\<forall>cs1 c cs2. cs = cs1 @ c # cs2 \<longrightarrow>
                (\<exists>dc dc'.
                    for_each ?gc cs1 dp = Ok dc
                  \<and> ?gc c dc = Ok dc'
                  \<and> for_each ?gc cs2 dc' = Ok dg'
                  \<and> (Active (heap dc c) \<longrightarrow> dc' = dc)
                  \<and> (\<not> Active (heap dc c) \<longrightarrow>
                       (\<exists>x d1. coeff ?input (label_of c) = Some x
                          \<and> d1 = child_probs sc x b c dc
                          \<and> (c \<noteq> b \<longrightarrow> newp (heap d1 c) =
                                (let lab = x + GetStateExpansionScore sc
                                             (ExpandState sc (state (heap dc b)) (label_of b)
                                                (state (heap dc c)) (label_of c))
                                             (if label_of c = label_of b
                                              then blank (oldp (heap dc b))
                                              else total (oldp (heap dc b)))
                                 in \<lparr>total = lab, blank = kLogZero, label = lab\<rparr>))
                          \<and> (admitted d1 (newp (heap d1 c)) \<longrightarrow>
                               leaves dc' = TopN_push (beam_width dc) (heap d1) c (leaves dc)
                               \<and> c \<in> set (leaves dc'))
                          \<and> (\<not> admitted d1 (newp (heap d1 c)) \<longrightarrow>
                               leaves dc' = leaves dc
                               \<and> oldp (heap dc' c) = BeamProbability_Reset
                               \<and> newp (heap dc' c) = BeamProbability_Reset)))))"
      proof (rule exI [of _ "?dp"], rule exI [of _ "?cs"], intro conjI allI impI)
        show "?dp = ?dp" by (rule refl)
        show "?cs = ?cs" by (rule refl)
        show "children (heap ?dp b) = ?cs" by (rule ch)
        show "for_each ?gc ?cs ?dp = Ok dg'" by (rule run)
      next
        fix cs1 c cs2
        assume "?cs = cs1 @ c # cs2"
        with sp obtain dc dc' where dc: "for_each ?gc cs1 ?dp = Ok dc" "?gc c dc = Ok dc'"
          "for_each ?gc cs2 dc' = Ok dg'"
          by blast
        from dc grow_child_examined [OF dc(2)]
        show "\<exists>dc dc'.
                    for_each ?gc cs1 ?dp = Ok dc
                  \<and> ?gc c dc = Ok dc'
                  \<and> for_each ?gc cs2 dc' = Ok dg'
                  \<and> (Active (heap dc c) \<longrightarrow> dc' = dc)
                  \<and> (\<not> Active (heap dc c) \<longrightarrow>
                       (\<exists>x d1. coeff ?input (label_of c) = Some x
                          \<and> d1 = child_probs sc x b c dc
                          \<and> (c \<noteq> b \<longrightarrow> newp (heap d1 c) =
                                (let lab = x + GetStateExpansionScore sc
                                             (ExpandState sc (state (heap dc b)) (label_of b)
                                                (state (heap dc c)) (label_of c))
                                             (if label_of c = label_of b
                                              then blank (oldp (heap dc b))
                                              else total (oldp (heap dc b)))
                                 in \<lparr>total = lab, blank = kLogZero, label = lab\<rparr>))
                          \<and> (admitted d1 (newp (heap d1 c)) \<longrightarrow>
                               leaves dc' = TopN_push (beam_width dc) (heap d1) c (leaves dc)
                               \<and> c \<in> set (leaves dc'))
                          \<and> (\<not> admitted d1 (newp (heap d1 c)) \<longrightarrow>
                               leaves dc' = leaves dc
                               \<and> oldp (heap dc' c) = BeamProbability_Reset
                               \<and> newp (heap dc' c) = BeamProbability_Reset)))"
          by blast
      qed
    qed
  qed
qed

theorem Step_growth_admission_witness:
  "\<exists>d' d3 dp d1. Step BaseBeamScorer [lg 0.3, lg 0.7] example_decoder = Ok d'
     \<and> Step_branches example_decoder = [] @ [] # []
     \<and> for_each (update_branch BaseBeamScorer (Step_input [lg 0.3, lg 0.7]))
           (Step_branches example_decoder) (Step_shifted example_decoder) = Ok d3
     \<and> grow_leaf BaseBeamScorer (Step_input [lg 0.3, lg 0.7]) [] d3 = Ok d'
     \<and> admitted d3 (oldp (heap d3 []))
     \<and> \<not> HasChildren (heap d3 [])
     \<and> dp = d3\<lparr>heap := PopulateChildren (fresh_state BaseBeamScorer)
                          (num_classes example_decoder - 1) [] (heap d3)\<rparr>
     \<and> children (heap dp []) = [] @ [0] # []
     \<and> grow_child BaseBeamScorer (Step_input [lg 0.3, lg 0.7]) [] [0] dp = Ok d'
     \<and> \<not> Active (heap dp [0])
     \<and> coeff (Step_input [lg 0.3, lg 0.7]) (label_of [0]) = Some (lg (3/7))
     \<and> d1 = child_probs BaseBeamScorer (lg (3/7)) [] [0] dp
     \<and> newp (heap d1 [0]) = \<lparr>total = lg (3/7), blank = kLogZero, label = lg (3/7)\<rparr>
     \<and> admitted d1 (newp (heap d1 [0]))
     \<and> leaves d' = TopN_push (beam_width dp) (heap d1) [0] (leaves dp)
     \<and> [0] \<in> set (leaves d')"
proof -
  let ?v = "Step_input [lg 0.3, lg 0.7]"
  from growth_eval obtain d' d3
    where s: "Step BaseBeamScorer [lg 0.3, lg 0.7] example_decoder = Ok d'"
      and br: "Step_branches example_decoder = [[]]"
      and nc: "num_classes example_decoder = 2"
      and d3: "for_each (update_branch BaseBeamScorer ?v)
           (Step_branches example_decoder) (Step_shifted example_decoder) = Ok d3"
      and a: "admitted d3 (oldp (heap d3 []))"
      and h: "\<not> HasChildren (heap d3 [])"
      and cp: "child_ptrs 1 [] = [[0]]"
      and i: "\<not> Active (heap (d3\<lparr>heap := PopulateChildren (fresh_state BaseBeamScorer) 1 [] (heap d3)\<rparr>) [0])"
      and c: "coeff ?v (label_of [0]) = Some (lg (3/7))"
      and a1: "admitted (child_probs BaseBeamScorer (lg (3/7)) [] [0]
                   (d3\<lparr>heap := PopulateChildren (fresh_state BaseBeamScorer) 1 [] (heap d3)\<rparr>))
          \<lparr>total = lg (3/7), blank = kLogZero, label = lg (3/7)\<rparr>"
      and o: "oldp (heap d3 []) = \<lparr>total = lg 1, blank = lg 1, label = lg 0\<rparr>"
    by blast
  let ?dp = "d3\<lparr>heap := PopulateChildren (fresh_state BaseBeamScorer)
                          (num_classes example_decoder - 1) [] (heap d3)\<rparr>"
  let ?d1 = "child_probs BaseBeamScorer (lg (3/7)) [] [0] ?dp"
  have br': "Step_branches example_decoder = [] @ [] # []" using br by simp
  from Step_growth_admission [OF s br'] obtain e3 dg dg'
    where e3: "for_each (update_branch BaseBeamScorer ?v)
           (Step_branches example_decoder) (Step_shifted example_decoder) = Ok e3"
      and dg: "for_each (grow_leaf BaseBeamScorer ?v) [] e3 = Ok dg"
      and g: "grow_leaf BaseBeamScorer ?v [] dg = Ok dg'"
      and rest: "for_each (grow_leaf BaseBeamScorer ?v) [] dg' = Ok d'"
      and grow: "admitted dg (oldp (heap dg [])) \<longrightarrow>
         (\<exists>dp cs.
             dp = (if HasChildren (heap dg []) then dg
                   else dg\<lparr>heap := PopulateChildren (fresh_state BaseBeamScorer)
                                    (num_classes example_decoder - 1) [] (heap dg)\<rparr>)
           \<and> cs = (if HasChildren (heap dg []) then children (heap dg [])
                   else child_ptrs (num_classes example_decoder - 1) [])
           \<and> children (heap dp []) = cs
           \<and> for_each (grow_child BaseBeamScorer ?v []) cs dp = Ok dg'
           \<and> (\<forall>cs1 c cs2. cs = cs1 @ c # cs2 \<longrightarrow>
                (\<exists>dc dc'.
                    for_each (grow_child BaseBeamScorer ?v []) cs1 dp = Ok dc
                  \<and> grow_child BaseBeamScorer ?v [] c dc = Ok dc'
                  \<and> for_each (grow_child BaseBeamScorer ?v []) cs2 dc' = Ok dg'
                  \<and> (Active (heap dc c) \<longrightarrow> dc' = dc)
                  \<and> (\<not> Active (heap dc c) \<longrightarrow>
                       (\<exists>x d1. coeff ?v (label_of c) = Some x
                          \<and> d1 = child_probs BaseBeamScorer x [] c dc
                          \<and> (c \<noteq> [] \<longrightarrow> newp (heap d1 c) =
                                (let lab = x + GetStateExpansionScore BaseBeamScorer
                                             (ExpandState BaseBeamScorer (state (heap dc [])) (label_of [])
                                                (state (heap dc c)) (label_of c))
                                             (if label_of c = label_of []
                                              then blank (oldp (heap dc []))
                                              else total (oldp (heap dc [])))
                                 in \<lparr>total = lab, blank = kLogZero, label = lab\<rparr>))
                          \<and> (admitted d1 (newp (heap d1 c)) \<longrightarrow>
                               leaves dc' = TopN_push (beam_width dc) (heap d1) c (leaves dc)
                               \<and> c \<in> set (leaves dc'))
                          \<and> (\<not> admitted d1 (newp (heap d1 c)) \<longrightarrow>
                               leaves dc' = leaves dc
                               \<and> oldp (heap dc' c) = BeamProbability_Reset
                               \<and> newp (heap dc' c) = BeamProbability_Reset))))))"
    by blast
  from e3 d3 dg have dg3: "dg = d3" by simp
  from rest have dg': "dg' = d'" by simp
  from g dg3 dg' have gl: "grow_leaf BaseBeamScorer ?v [] d3 = Ok d'" by simp
  have cs: "child_ptrs (num_classes example_decoder - 1) [] = [] @ [0] # []"
    using cp nc by simp
  have a': "admitted dg (oldp (heap dg []))" using a dg3 by simp
  from grow a' obtain dp cs
    where dpe: "dp = (if HasChildren (heap dg []) then dg
                   else dg\<lparr>heap := PopulateChildren (fresh_state BaseBeamScorer)
                                    (num_classes example_decoder - 1) [] (heap dg)\<rparr>)"
      and cse: "cs = (if HasChildren (heap dg []) then children (heap dg [])
                   else child_ptrs (num_classes example_decoder - 1) [])"
      and ch0: "children (heap dp []) = cs"
      and sp: "\<forall>cs1 c cs2. cs = cs1 @ c # cs2 \<longrightarrow>
                (\<exists>dc dc'.
                    for_each (grow_child BaseBeamScorer ?v []) cs1 dp = Ok dc
                  \<and> grow_child BaseBeamScorer ?v [] c dc = Ok dc'
                  \<and> for_each (grow_child BaseBeamScorer ?v []) cs2 dc' = Ok dg'
                  \<and> (Active (heap dc c) \<longrightarrow> dc' = dc)
                  \<and> (\<not> Active (heap dc c) \<longrightarrow>
                       (\<exists>x d1. coeff ?v (label_of c) = Some x
                          \<and> d1 = child_probs BaseBeamScorer x [] c dc
                          \<and> (c \<noteq> [] \<longrightarrow> newp (heap d1 c) =
                                (let lab = x + GetStateExpansionScore BaseBeamScorer
                                             (ExpandState BaseBeamScorer (state (heap dc [])) (label_of [])
                                                (state (heap dc c)) (label_of c))
                                             (if label_of c = label_of []
                                              then blank (oldp (heap dc []))
                                              else total (oldp (heap dc [])))
                                 in \<lparr>total = lab, blank = kLogZero, label = lab\<rparr>))
                          \<and> (admitted d1 (newp (heap d1 c)) \<longrightarrow>
                               leaves dc' = TopN_push (beam_width dc) (heap d1) c (leaves dc)
                               \<and> c \<in> set (leaves dc'))
                          \<and> (\<not> admitted d1 (newp (heap d1 c)) \<longrightarrow>
                               leaves dc' = leaves dc
                               \<and> oldp (heap dc' c) = BeamProbability_Reset
                               \<and> newp (heap dc' c) = BeamProbability_Reset))))"
    by blast
  have dpe': "dp = ?dp" using dpe h dg3 by simp
  have cse': "cs = [] @ [0] # []" using cse h dg3 cs by simp
  have ch: "children (heap ?dp []) = [] @ [0] # []" using ch0 dpe' cse' by simp
  from sp [rule_format, OF cse'] obtain dc dc'
    where dc: "for_each (grow_child BaseBeamScorer ?v []) [] dp = Ok dc"
      and gc: "grow_child BaseBeamScorer ?v [] [0] dc = Ok dc'"
      and r2: "for_each (grow_child BaseBeamScorer ?v []) [] dc' = Ok dg'"
      and ex: "\<not> Active (heap dc [0]) \<longrightarrow>
                       (\<exists>x d1. coeff ?v (label_of [0]) = Some x
                          \<and> d1 = child_probs BaseBeamScorer x [] [0] dc
                          \<and> ([0] \<noteq> [] \<longrightarrow> newp (heap d1 [0]) =
                                (let lab = x + GetStateExpansionScore BaseBeamScorer
                                             (ExpandState BaseBeamScorer (state (heap dc [])) (label_of [])
                                                (state (heap dc [0])) (label_of [0]))
                                             (if label_of [0] = label_of []
                                              then blank (oldp (heap dc []))
                                              else total (oldp (heap dc [])))
                                 in \<lparr>total = lab, blank = kLogZero, label = lab\<rparr>))
                          \<and> (admitted d1 (newp (heap d1 [0])) \<longrightarrow>
                               leaves dc' = TopN_push (beam_width dc) (heap d1) [0] (leaves dc)
                               \<and> [0] \<in> set (leaves dc'))
                          \<and> (\<not> admitted d1 (newp (heap d1 [0])) \<longrightarrow>
                               leaves dc' = leaves dc
                               \<and> oldp (heap dc' [0]) = BeamProbability_Reset
                               \<and> newp (heap dc' [0]) = BeamProbability_Reset))"
    by blast
  from dc dpe' have dcp: "dc = ?dp" by simp
  from r2 dg' have dc': "dc' = d'" by simp
  have i': "\<not> Active (heap ?dp [0])" using i nc by simp
  have od: "oldp (heap ?dp []) = \<lparr>total = lg 1, blank = lg 1, label = lg 0\<rparr>"
    using o by (simp add: PopulateChildren_apply child_ptrs_def)
  from ex i' c have np: "newp (heap ?d1 [0]) =
        (let lab = lg (3/7) + GetStateExpansionScore BaseBeamScorer
                     (ExpandState BaseBeamScorer (state (heap ?dp [])) (label_of [])
                        (state (heap ?dp [0])) (label_of [0]))
                     (if label_of [0] = label_of []
                      then blank (oldp (heap ?dp []))
                      else total (oldp (heap ?dp [])))
         in \<lparr>total = lab, blank = kLogZero, label = lab\<rparr>)"
    and push: "admitted ?d1 (newp (heap ?d1 [0])) \<longrightarrow>
           leaves dc' = TopN_push (beam_width dc) (heap ?d1) [0] (leaves dc)
           \<and> [0] \<in> set (leaves dc')"
    unfolding dcp by (auto simp del: Let_def)
  have np': "newp (heap ?d1 [0]) = \<lparr>total = lg (3/7), blank = kLogZero, label = lg (3/7)\<rparr>"
    unfolding np od by (simp add: Let_def BaseBeamScorer_def label_of_def lg_simps)
  have a1': "admitted ?d1 (newp (heap ?d1 [0]))" unfolding np' using a1 nc by simp
  from push a1' have pp: "leaves dc' = TopN_push (beam_width dc) (heap ?d1) [0] (leaves dc)"
    "[0] \<in> set (leaves dc')"
    by blast+
  have lv: "leaves d' = TopN_push (beam_width ?dp) (heap ?d1) [0] (leaves ?dp)"
    using pp(1) unfolding dcp dc' by simp
  have mem: "[0] \<in> set (leaves d')" using pp(2) unfolding dc' by simp
  from gc dcp dc' have gc': "grow_child BaseBeamScorer ?v [] [0] ?dp = Ok d'" by simp
  from s br' d3 gl a h ch gc' i' c np' a1' lv mem show ?thesis by blast
qed

subsection \<open>The blank probability after Step\<close>






subsection \<open>The scores written by Decode\<close>

lemma TopPaths_Inr:
  assumes "TopPaths n merge d = Inr (ps, lps)"
  shows "\<exists>es. ps = map (LabelSeq merge) es \<and> lps = map (\<lambda>e. total (newp (heap d e))) es
           \<and> length es = nat n \<and> set es \<subseteq> set (leaves d)"
proof -
  let ?top = "fold (TopN_push n (heap d)) (leaves d) []"
  let ?br = "TopN_Extract (heap d) ?top"
  let ?es = "map (\<lambda>i. ?br ! i) [0 ..< nat n]"
  from assms have c: "n \<le> beam_width d" "n \<le> int (length (leaves d))"
    by (auto simp: TopPaths_def split: if_splits)
  with assms have r: "ps = map (LabelSeq merge) ?es" "lps = map (\<lambda>e. total (newp (heap d e))) ?es"
    by (simp_all add: TopPaths_def Let_def)
  have sub: "set ?es \<subseteq> set (leaves d)"
  proof (cases "0 \<le> n")
    case True
    then have "int (length ?br) = n"
      using c fold_TopN_push_length [of n "[]" "heap d" "leaves d"]
      by (simp add: TopN_Extract_length)
    then have "nat n = length ?br" by simp
    then have "?es = ?br" by (simp add: map_nth)
    then show ?thesis
      using fold_TopN_push_subset [of n "heap d" "leaves d" "[]"]
      by (simp add: TopN_Extract_set)
  next
    case False
    then show ?thesis by simp
  qed
  have "length ?es = nat n" by simp
  with r sub show ?thesis by blast
qed

text \<open>
  C6, as the code has it. For every batch element that \<open>Decode\<close> completes, it writes
  \<open>top_n\<close> label sequences and scores: each score is the negated \<open>newp.total\<close> (after the
  end-of-sequence adjustment) of a member of the final beam, and the label sequence is
  that member's. The score of a member whose total is the sentinel is \<open>+\<infinity>\<close>. Nothing makes
  a score non-negative.
\<close>

theorem Decode_scores:
  assumes "Decode_batch sc seq_len input top_n b (d, outs) = Ok (d', outs')"
  shows "\<exists>es. int (length es) = top_n \<and> set es \<subseteq> set (leaves d')
           \<and> outs' = outs @ [(map (LabelSeq (merge_repeated d')) es,
                               map (\<lambda>e. negate (total (newp (heap d' e)))) es)]"
proof -
  from assms obtain seq_len_b where 1: "nth_opt seq_len b = Some seq_len_b"
    by (cases "nth_opt seq_len b") (simp_all add: Decode_batch_def)
  from assms 1 obtain d1
    where 3: "for_each (Decode_step sc input b) [0 ..< nat seq_len_b] (Reset sc d) = Ok d1"
    by (cases "for_each (Decode_step sc input b) [0 ..< nat seq_len_b] (Reset sc d)")
      (simp_all add: Decode_batch_def)
  let ?d2 = "fold (finalize_entry sc) (TopN_Extract (heap d1) (leaves d1)) (d1\<lparr>leaves := []\<rparr>)"
  from assms 1 3 obtain beams lps where 4: "TopPaths top_n (merge_repeated ?d2) ?d2 = Inr (beams, lps)"
    by (cases "TopPaths top_n (merge_repeated ?d2) ?d2") (auto simp: Decode_batch_def Let_def)
  from assms 1 3 4 have 5: "top_n = int (length lps)" "d' = ?d2"
    "outs' = outs @ [(beams, map negate lps)]"
    by (auto simp: Decode_batch_def Let_def split: if_splits)
  from TopPaths_Inr [OF 4] obtain es where es: "beams = map (LabelSeq (merge_repeated ?d2)) es"
    "lps = map (\<lambda>e. total (newp (heap ?d2 e))) es" "set es \<subseteq> set (leaves ?d2)"
    by blast
  from es(2) 5(1) have "int (length es) = top_n" by simp
  moreover have "map negate lps = map (\<lambda>e. negate (total (newp (heap ?d2 e)))) es"
    unfolding es(2) by simp
  ultimately show ?thesis using es(1,3) 5(2,3) by auto
qed

lemma repeat_eval:
  "\<exists>d'. Decode_batch BaseBeamScorer [2] repeat_input 1 0
           (CTCBeamSearchDecoder_raw 2 3 1 False BaseBeamScorer, [])
         = Ok (d', [([[0]], [negate (lg (7 / 3))])])"
  unfolding repeat_input_def
  by (simp add: run_defs lg_simps upt_rec)

text \<open>One timestep with beam width 2 and the two best paths requested: the root is a member
  of the final beam with its total at the sentinel, and its score is \<open>+\<infinity>\<close>.\<close>

lemma inactive_eval:
  "\<exists>d'. Decode_batch BaseBeamScorer [1] [[[lg 0.3, lg 0.7]]] 2 0
           (CTCBeamSearchDecoder_raw 2 2 1 False BaseBeamScorer, [])
         = Ok (d', [([[0], []], [negate (lg (3/7)), PosInf])])
       \<and> leaves d' = [[0], []]
       \<and> total (newp (heap d' [])) = kLogZero"
  by (simp add: run_defs lg_simps negate_lg_sentinel upt_rec)

theorem Decode_scores_witness:
  "\<exists>d' outs' es. Decode_batch BaseBeamScorer [1] [[[lg 0.3, lg 0.7]]] 2 0
           (CTCBeamSearchDecoder_raw 2 2 1 False BaseBeamScorer, []) = Ok (d', outs')
     \<and> int (length es) = 2 \<and> set es \<subseteq> set (leaves d')
     \<and> outs' = [] @ [(map (LabelSeq (merge_repeated d')) es,
                       map (\<lambda>e. negate (total (newp (heap d' e)))) es)]
     \<and> outs' = [([[0], []], [negate (lg (3/7)), PosInf])]"
proof -
  from inactive_eval obtain d' where h: "Decode_batch BaseBeamScorer [1] [[[lg 0.3, lg 0.7]]] 2 0
           (CTCBeamSearchDecoder_raw 2 2 1 False BaseBeamScorer, [])
         = Ok (d', [([[0], []], [negate (lg (3/7)), PosInf])])"
    by blast
  from Decode_scores [OF h] h show ?thesis by blast
qed

text \<open>A negative score: with \<open>P(a) = 0.6\<close> and \<open>P(blank) = 0.4\<close> at two timesteps, \<open>Step\<close>
  rescales each timestep by its maximum, the total of \<open>[a]\<close> is \<open>log (7/3)\<close> and its score is
  below \<open>0\<close>.\<close>

theorem Decode_score_negative:
  "outputs_of repeat_run = [([[0]], [negate (lg (7 / 3))])] \<and> negate (lg (7 / 3)) < 0"
proof -
  have b: "[0 ..< nat (batch_size (CTCBeamSearchDecoder_raw 2 3 1 False BaseBeamScorer))] = [0]"
    by (simp add: CTCBeamSearchDecoder_raw_def)
  from repeat_eval obtain d' where r: "repeat_run = Ok (d', [([[0]], [negate (lg (7 / 3))])])"
    unfolding repeat_run_def Decode_def b by auto
  have "outputs_of repeat_run = [([[0]], [negate (lg (7 / 3))])]"
    unfolding outputs_of_def state_of_def r by simp
  moreover have "negate (lg (7 / 3)) < 0" by (simp add: lg_simps)
  ultimately show ?thesis by simp
qed

subsection \<open>The example of the header comment\<close>

lemma graves_eval:
  assumes "3 \<le> bw"
  shows "\<exists>d'. graves_run bw
      = Ok (d', [([[0], []], [negate (lg (0.58 / (0.7 * 0.6))), negate (lg (0.42 / (0.7 * 0.6)))])])"
  using assms unfolding graves_run_def graves_input_def
  by (simp add: run_defs lg_simps upt_rec)

text \<open>
  C5, as the code has it. For the two-timestep input \<open>P = [[0.3, 0.7], [0.4, 0.6]]\<close> over
  \<open>{a, blank}\<close>, with the no-op scorer and a beam width of at least 3, \<open>Decode\<close> ranks \<open>[a]\<close>
  above the empty sequence. The scores are the negated logarithms of the probabilities
  divided by the product \<open>0.7 * 0.6\<close> of the maxima that \<open>Step\<close> subtracts: \<open>0.58 / 0.42\<close> for
  \<open>[a]\<close> and \<open>0.42 / 0.42 = 1\<close> (score \<open>0\<close>) for the empty sequence.
\<close>

theorem graves_example:
  assumes "3 \<le> bw"
  shows "(\<exists>d'. graves_run bw = Ok (d', outputs_of (graves_run bw)))
       \<and> outputs_of (graves_run bw)
           = [([[0], []], [negate (lg (0.58 / (0.7 * 0.6))), negate (lg (0.42 / (0.7 * 0.6)))])]
       \<and> negate (lg (0.58 / (0.7 * 0.6))) < negate (lg (0.42 / (0.7 * 0.6)))
       \<and> negate (lg (0.42 / (0.7 * 0.6))) = 0"
proof -
  from graves_eval [OF assms] obtain d' where r: "graves_run bw
      = Ok (d', [([[0], []], [negate (lg (0.58 / (0.7 * 0.6))), negate (lg (0.42 / (0.7 * 0.6)))])])"
    by blast
  have o: "outputs_of (graves_run bw)
      = [([[0], []], [negate (lg (0.58 / (0.7 * 0.6))), negate (lg (0.42 / (0.7 * 0.6)))])]"
    unfolding outputs_of_def state_of_def r by simp
  have "graves_run bw = Ok (d', outputs_of (graves_run bw))"
    unfolding o by (rule r)
  moreover have "negate (lg (0.58 / (0.7 * 0.6))) < negate (lg (0.42 / (0.7 * 0.6)))"
    by (simp add: lg_simps)
  moreover have "negate (lg (0.42 / (0.7 * 0.6))) = 0"
    by (simp add: lg_simps)
  ultimately show ?thesis using o by blast
qed

theorem graves_example_witness:
  "(3::int) \<le> 3
   \<and> outputs_of (graves_run 3)
       = [([[0], []], [negate (lg (0.58 / (0.7 * 0.6))), negate (lg (0.42 / (0.7 * 0.6)))])]"
  using graves_example [of 3] by simp

text \<open>The scores are not those of the probabilities \<open>0.58\<close> and \<open>0.42\<close>.\<close>

theorem graves_example_counterexample:
  "outputs_of (graves_run 3) \<noteq> [([[0], []], [negate (lg 0.58), negate (lg 0.42)])]
   \<and> snd (hd (outputs_of (graves_run 3))) = [negate (lg (29 / 21)), 0]
   \<and> negate (lg (29 / 21)) \<noteq> negate (lg 0.58) \<and> 0 \<noteq> negate (lg 0.42)"
proof -
  have "(3::int) \<le> 3" by simp
  from graves_eval [OF this] obtain d' where r: "graves_run 3
      = Ok (d', [([[0], []], [negate (lg (0.58 / (0.7 * 0.6))), negate (lg (0.42 / (0.7 * 0.6)))])])"
    by blast
  have o: "outputs_of (graves_run 3)
      = [([[0], []], [negate (lg (0.58 / (0.7 * 0.6))), negate (lg (0.42 / (0.7 * 0.6)))])]"
    unfolding outputs_of_def state_of_def r by simp
  show ?thesis unfolding o by (simp add: lg_simps)
qed

subsection \<open>The reset of the beam minimum\<close>

text \<open>Whenever the push of an admitted child fills the beam exactly, nothing is evicted,
  and the minimum of the beam before the push is reset while it stays a member.\<close>

lemma grow_child_fills_beam:
  assumes "leaves d \<noteq> []" and "\<not> Active (heap d (k # b))" and "coeff input k = Some x"
    and "admitted (child_probs sc x b (k # b) d)
           (newp (heap (child_probs sc x b (k # b) d) (k # b)))"
    and "int (length (leaves d)) + 1 = beam_width d"
  shows "\<exists>d'. grow_child sc input b (k # b) d = Ok d'
           \<and> leaves d' = leaves d @ [k # b]
           \<and> TopN_bottom (heap (child_probs sc x b (k # b) d)) (leaves d) \<in> set (leaves d')
           \<and> newp (heap d' (TopN_bottom (heap (child_probs sc x b (k # b) d)) (leaves d)))
               = BeamProbability_Reset"
proof -
  let ?c = "k # b"
  let ?d1 = "child_probs sc x b ?c d"
  let ?m = "TopN_bottom (heap ?d1) (leaves d)"
  have l1: "leaves ?d1 = leaves d" and w1: "beam_width ?d1 = beam_width d"
    by (simp_all add: child_probs_frame)
  have ne: "leaves ?d1 \<noteq> []" using assms(1) l1 by simp
  have cand: "is_candidate ?d1 (newp (heap ?d1 ?c)) = Some True"
    using is_candidate_admitted [OF ne] assms(4) by simp
  have pk: "peek_bottom (heap ?d1) (leaves ?d1) = Some ?m"
    using ne by (simp add: peek_bottom_def l1)
  have pl: "leaves (push_leaf ?c ?d1) = leaves d @ [?c]"
    using assms(5) by (simp add: push_leaf_def TopN_push_def l1 w1)
  have full: "int (length (leaves (push_leaf ?c ?d1))) = beam_width (push_leaf ?c ?d1)"
    using assms(5) pl by (simp add: push_leaf_def w1)
  have g: "grow_child sc input b ?c d
      = Ok (update_newp ?m (\<lambda>q. BeamProbability_Reset) (push_leaf ?c ?d1))"
    using assms(2,3) cand pk full by (simp add: grow_child_def label_of_def Let_def)
  have "?m \<in> set (leaves d)" using assms(1) by (rule TopN_bottom_in)
  then show ?thesis
    unfolding g using pl by (simp add: update_newp_def)
qed

lemma single_step_eval:
  "\<exists>d'. single_step_run = Ok d'
     \<and> leaves d' = [[], [0]]
     \<and> newp (heap d' []) = BeamProbability_Reset
     \<and> newp (heap d' [0]) = \<lparr>total = lg (3/7), blank = lg 0, label = lg (3/7)\<rparr>
     \<and> TopPaths 1 False d' = Inr ([[0]], [lg (3/7)])"
  unfolding single_step_run_def
  by (simp add: run_defs lg_simps upt_rec)

text \<open>
  C3 (the beam minimum is evicted and reset exactly when the beam was full before the
  push, so every beam member is active after \<open>Step\<close>) fails on the code. With beam width 2
  and one timestep with \<open>P(a) = 0.3\<close>, \<open>P(blank) = 0.7\<close>: when the child \<open>[a]\<close> is pushed the
  beam holds only the root, so nothing is evicted, but the size after the push equals the
  beam width and the root is reset. After \<open>Step\<close> the root is a member of the beam and
  inactive, and \<open>TopPaths 1\<close> returns \<open>[a]\<close>.
\<close>

theorem Step_resets_beam_member:
  "single_step_run = Ok (state_of single_step_run)
   \<and> int (length (leaves (state_of single_step_run))) = 2
   \<and> beam_root \<in> set (leaves (state_of single_step_run))
   \<and> newp (heap (state_of single_step_run) beam_root) = BeamProbability_Reset
   \<and> \<not> Active (heap (state_of single_step_run) beam_root)
   \<and> TopPaths 1 False (state_of single_step_run) = Inr ([[0]], [lg (3/7)])"
proof -
  from single_step_eval obtain d' where r: "single_step_run = Ok d'"
    and f: "leaves d' = [[], [0]]" "newp (heap d' []) = BeamProbability_Reset"
      "TopPaths 1 False d' = Inr ([[0]], [lg (3/7)])"
    by blast
  have s: "state_of single_step_run = d'" unfolding state_of_def r by simp
  show ?thesis
    unfolding s using r f
    by (simp add: beam_root_def Active_def BeamProbability_Reset_def)
qed

end
